theory Spec2Isabelle
  imports Complex_Main
begin

section \<open>Python strings\<close>

text \<open>
  A Python \<open>str\<close> is a sequence of Unicode code points; it is modelled as a list of
  natural numbers, one per code point. ASCII literals of the source are written with
  \<open>ascii\<close>; the Japanese literals are given by their code points.
\<close>

type_synonym pystr = "nat list"

definition ascii :: "string \<Rightarrow> pystr" where
  "ascii s = map of_char s"

definition unknown_text :: pystr where
  \<comment> \<open>the literal U+4E0D U+660E ("unknown") of \<open>check_event_tickets\<close>\<close>
  "unknown_text = [0x4E0D, 0x660E]"

definition purchase_phrase :: pystr where
  \<comment> \<open>the literal U+8CFC U+5165 U+624B U+7D9A U+304D tested in strategy 3\<close>
  "purchase_phrase = [0x8CFC, 0x5165, 0x624B, 0x7D9A, 0x304D]"

definition is_space :: "nat \<Rightarrow> bool" where
  \<comment> \<open>the characters removed by \<open>str.strip()\<close> without argument\<close>
  "is_space c \<longleftrightarrow>
     (0x09 \<le> c \<and> c \<le> 0x0D) \<or> (0x1C \<le> c \<and> c \<le> 0x20) \<or> c = 0x85 \<or> c = 0xA0 \<or>
     c = 0x1680 \<or> (0x2000 \<le> c \<and> c \<le> 0x200A) \<or> c = 0x2028 \<or> c = 0x2029 \<or>
     c = 0x202F \<or> c = 0x205F \<or> c = 0x3000"

definition strip :: "pystr \<Rightarrow> pystr" where
  "strip s = rev (dropWhile is_space (rev (dropWhile is_space s)))"

fun starts_with :: "pystr \<Rightarrow> pystr \<Rightarrow> bool" where
  "starts_with [] s = True"
| "starts_with (p # ps) [] = False"
| "starts_with (p # ps) (c # cs) = (p = c \<and> starts_with ps cs)"

fun py_in :: "pystr \<Rightarrow> pystr \<Rightarrow> bool" where
  \<comment> \<open>\<open>needle in hay\<close> on strings: \<open>needle\<close> occurs as a contiguous substring\<close>
  "py_in needle [] = (needle = [])"
| "py_in needle (c # cs) = (starts_with needle (c # cs) \<or> py_in needle cs)"

section \<open>The parsed page\<close>

text \<open>
  The tree that \<open>BeautifulSoup(content, "html.parser")\<close> returns. An element has its
  tag name, the list of its classes (the multi-valued \<open>class\<close> attribute, empty when
  the attribute is absent), its other attributes and its children. \<open>Text\<close> is a
  string that \<open>get_text\<close> collects; \<open>Comment\<close> stands for the strings it skips
  (comments, declarations). A document is the list of the top-level nodes.
\<close>

datatype node =
    Text pystr
  | Comment pystr
  | Element (tag: pystr) (classes: "pystr list") (attrs: "(pystr \<times> pystr) list")
      (children: "node list")

type_synonym document = "node list"

fun is_element :: "node \<Rightarrow> bool" where
  "is_element (Element t cs as ks) = True"
| "is_element n = False"

fun tag_of :: "node \<Rightarrow> pystr" where
  "tag_of (Element t cs as ks) = t"
| "tag_of n = []"

fun classes_of :: "node \<Rightarrow> pystr list" where
  \<comment> \<open>\<open>el.get("class", [])\<close>\<close>
  "classes_of (Element t cs as ks) = cs"
| "classes_of n = []"

fun attrs_of :: "node \<Rightarrow> (pystr \<times> pystr) list" where
  "attrs_of (Element t cs as ks) = as"
| "attrs_of n = []"

fun walk :: "node list \<Rightarrow> node \<Rightarrow> (node \<times> node list) list" where
  \<comment> \<open>the elements of a subtree in document order, the root included, each with the
      chain of its ancestors, nearest first\<close>
  "walk anc (Element t cs as ks) =
     (Element t cs as ks, anc) # concat (map (walk (Element t cs as ks # anc)) ks)"
| "walk anc (Text s) = []"
| "walk anc (Comment s) = []"

definition doc_elements :: "document \<Rightarrow> (node \<times> node list) list" where
  \<comment> \<open>every element of the page, in document order, with its ancestors\<close>
  "doc_elements doc = concat (map (walk []) doc)"

definition descendants :: "node \<Rightarrow> node list" where
  \<comment> \<open>the elements strictly below a node, in document order\<close>
  "descendants n = map fst (concat (map (walk []) (case n of Element t cs as ks \<Rightarrow> ks | _ \<Rightarrow> [])))"

fun strings :: "node \<Rightarrow> pystr list" where
  \<comment> \<open>the text strings below a node, in document order\<close>
  "strings (Text s) = [s]"
| "strings (Comment s) = []"
| "strings (Element t cs as ks) = concat (map strings ks)"

definition get_text :: "node \<Rightarrow> pystr" where
  \<comment> \<open>\<open>el.get_text(strip=True)\<close>: every string stripped, the empty ones dropped, joined
      without separator\<close>
  "get_text n = concat (filter (\<lambda>s. s \<noteq> []) (map strip (strings n)))"

definition has_class :: "pystr \<Rightarrow> node \<Rightarrow> bool" where
  "has_class c n \<longleftrightarrow> is_element n \<and> c \<in> set (classes_of n)"

definition has_tag :: "pystr \<Rightarrow> node \<Rightarrow> bool" where
  "has_tag t n \<longleftrightarrow> is_element n \<and> tag_of n = t"

definition has_attr :: "pystr \<Rightarrow> node \<Rightarrow> bool" where
  "has_attr a n \<longleftrightarrow> is_element n \<and> map_of (attrs_of n) a \<noteq> None"

definition lower :: "pystr \<Rightarrow> pystr" where
  \<comment> \<open>ASCII letters folded to lower case\<close>
  "lower s = map (\<lambda>c. if 0x41 \<le> c \<and> c \<le> 0x5A then c + 0x20 else c) s"

definition attr_is_ci :: "pystr \<Rightarrow> pystr \<Rightarrow> node \<Rightarrow> bool" where
  \<comment> \<open>the selector \<open>[a=v]\<close> for the attribute \<open>type\<close>, whose value the selector
      library compares without regard to case in an HTML document\<close>
  "attr_is_ci a v n \<longleftrightarrow>
     is_element n \<and> (case map_of (attrs_of n) a of None \<Rightarrow> False | Some w \<Rightarrow> lower w = lower v)"

definition select_one :: "(node \<Rightarrow> bool) \<Rightarrow> node \<Rightarrow> node option" where
  \<comment> \<open>\<open>el.select_one(selector)\<close>: the first matching element below \<open>el\<close>, or None\<close>
  "select_one P n = (case filter P (descendants n) of [] \<Rightarrow> None | x # xs \<Rightarrow> Some x)"

definition find_parent :: "node list \<Rightarrow> node option" where
  \<comment> \<open>\<open>sel.find_parent("div", class_="perform-list")\<close> on the ancestor chain of \<open>sel\<close>\<close>
  "find_parent anc =
     (case filter (\<lambda>a. has_tag (ascii ''div'') a \<and> has_class (ascii ''perform-list'') a) anc of
        [] \<Rightarrow> None | x # xs \<Rightarrow> Some x)"

section \<open>The availability detector: \<open>check_event_tickets\<close>\<close>

datatype detection_method = SELECT | ACTIVE | BUTTON

record ticket =
  date :: pystr
  venue :: pystr
  tickets :: "pystr list"
  t_method :: detection_method

definition text_or_unknown :: "node option \<Rightarrow> pystr" where
  \<comment> \<open>\<open>el.get_text(strip=True) if el else "unknown"\<close>\<close>
  "text_or_unknown el = (case el of None \<Rightarrow> unknown_text | Some e \<Rightarrow> get_text e)"

definition is_ticket_option :: "node \<Rightarrow> bool" where
  \<comment> \<open>the selector \<open>option[data-ticket-no]\<close>\<close>
  "is_ticket_option n \<longleftrightarrow> has_tag (ascii ''option'') n \<and> has_attr (ascii ''data-ticket-no'') n"

definition is_clickable :: "node \<Rightarrow> bool" where
  \<comment> \<open>the selector \<open>button, input[type=submit], a.btn\<close>\<close>
  "is_clickable n \<longleftrightarrow>
     has_tag (ascii ''button'') n \<or>
     (has_tag (ascii ''input'') n \<and> attr_is_ci (ascii ''type'') (ascii ''submit'') n) \<or>
     (has_tag (ascii ''a'') n \<and> has_class (ascii ''btn'') n)"

definition select_entry :: "node \<Rightarrow> node \<Rightarrow> ticket" where
  \<comment> \<open>the entry of strategy 1 for a selection control and its enclosing block\<close>
  "select_entry perform_div sel =
     \<lparr>date = text_or_unknown (select_one (has_class (ascii ''lead'')) perform_div),
      venue = text_or_unknown (select_one (has_tag (ascii ''p'')) perform_div),
      tickets = map get_text (filter is_ticket_option (descendants sel)),
      t_method = SELECT\<rparr>"

definition active_entry :: "node \<Rightarrow> ticket" where
  \<comment> \<open>the entry of strategy 2 for a block\<close>
  "active_entry d =
     \<lparr>date = text_or_unknown (select_one (has_class (ascii ''lead'')) d),
      venue = text_or_unknown (select_one (has_tag (ascii ''p'')) d),
      tickets = [],
      t_method = ACTIVE\<rparr>"

definition button_entry :: ticket where
  \<comment> \<open>the entry of strategy 3\<close>
  "button_entry = \<lparr>date = unknown_text, venue = unknown_text, tickets = [], t_method = BUTTON\<rparr>"

fun method1_loop :: "(node \<times> node list) list \<Rightarrow> ticket list \<Rightarrow> ticket list" where
  \<comment> \<open>the loop over \<open>soup.select(".ticket-select")\<close>\<close>
  "method1_loop [] available = available"
| "method1_loop ((sel, anc) # rest) available =
     (case find_parent anc of
        None \<Rightarrow> method1_loop rest available
      | Some perform_div \<Rightarrow> method1_loop rest (available @ [select_entry perform_div sel]))"

fun method2_loop :: "node list \<Rightarrow> ticket list \<Rightarrow> ticket list" where
  \<comment> \<open>the loop over \<open>soup.select(".perform-list")\<close>\<close>
  "method2_loop [] available = available"
| "method2_loop (d # rest) available =
     (if ascii ''text-muted'' \<notin> set (classes_of d)
      then method2_loop rest (available @ [active_entry d])
      else method2_loop rest available)"

fun method3_loop :: "node list \<Rightarrow> ticket list \<Rightarrow> ticket list" where
  \<comment> \<open>the loop over \<open>soup.select("button, input[type=submit], a.btn")\<close>\<close>
  "method3_loop [] available = available"
| "method3_loop (btn # rest) available =
     (if py_in purchase_phrase (get_text btn)
      then method3_loop rest (available @ [button_entry])
      else method3_loop rest available)"

definition ticket_selects :: "document \<Rightarrow> (node \<times> node list) list" where
  "ticket_selects doc = filter (\<lambda>(e, anc). has_class (ascii ''ticket-select'') e) (doc_elements doc)"

definition perform_lists :: "document \<Rightarrow> node list" where
  "perform_lists doc = filter (has_class (ascii ''perform-list'')) (map fst (doc_elements doc))"

definition clickables :: "document \<Rightarrow> node list" where
  "clickables doc = filter is_clickable (map fst (doc_elements doc))"

definition check_event_tickets :: "document \<Rightarrow> ticket list" where
  "check_event_tickets doc =
     (let available = method1_loop (ticket_selects doc) [];
          available = (if available = [] then method2_loop (perform_lists doc) available
                       else available);
          available = (if available = [] then method3_loop (clickables doc) available
                       else available)
      in available)"

text \<open>The three strategies on their own, each started on an empty result.\<close>

definition method1 :: "document \<Rightarrow> ticket list" where
  "method1 doc = method1_loop (ticket_selects doc) []"

definition method2 :: "document \<Rightarrow> ticket list" where
  "method2 doc = method2_loop (perform_lists doc) []"

definition method3 :: "document \<Rightarrow> ticket list" where
  "method3 doc = method3_loop (clickables doc) []"

fun select_entries :: "(node \<times> node list) list \<Rightarrow> ticket list" where
  \<comment> \<open>what the first loop appends, as a list\<close>
  "select_entries [] = []"
| "select_entries ((sel, anc) # rest) =
     (case find_parent anc of
        None \<Rightarrow> select_entries rest
      | Some perform_div \<Rightarrow> select_entry perform_div sel # select_entries rest)"

section \<open>The listing extractor: \<open>get_event_urls\<close>\<close>

text \<open>
  The browser is outside the program. A navigation (\<open>page.goto\<close> and the reads of the
  page that follow it) either raises or gives the rendered page: the links that
  \<open>query_selector_all("a")\<close> returns and the content that is handed to the parser. What
  is raised is an instance of \<open>Exception\<close> (a timeout, say), \<open>KeyboardInterrupt\<close>, or
  a cancellation, which \<open>except Exception\<close> does not catch. The debug captures (made
  only when \<open>DEBUG\<close> is set) and the log lines leave no trace in the results and are
  left out.
\<close>

datatype raised =
    Exception pystr      \<comment> \<open>an instance of a subclass of \<open>Exception\<close>, with its message\<close>
  | KeyboardInterrupt
  | CancelledError       \<comment> \<open>a cancellation: derives from \<open>BaseException\<close> only\<close>

record link =
  href :: "pystr option"   \<comment> \<open>\<open>link.get_attribute("href")\<close>\<close>
  inner_text :: pystr      \<comment> \<open>\<open>link.inner_text()\<close>\<close>

record page =
  links :: "link list"     \<comment> \<open>\<open>page.query_selector_all("a")\<close>, in document order\<close>
  content :: document      \<comment> \<open>\<open>page.content()\<close>, parsed\<close>

datatype response = Raises raised | Rendered page

record event =
  name :: pystr
  url :: pystr
  path :: pystr

definition BASE_URL :: pystr where
  "BASE_URL = ascii ''https://relief-ticket.jp''"

definition ARTIST_IDS :: "(pystr \<times> int) list" where
  "ARTIST_IDS =
     [(ascii ''Travis Japan'', 38),
      (ascii ''SixTONES'', 40),
      (ascii ''King & Prince'', 41),
      ([0x4E2D, 0x5CF6, 0x5065, 0x4EBA], 42),
      ([0x30B8, 0x30E5, 0x30CB, 0x30A2], 15)]"

function digits :: "nat \<Rightarrow> pystr" where
  "digits n = (if n < 10 then [0x30 + n] else digits (n div 10) @ [0x30 + n mod 10])"
  by pat_completeness auto
termination
  by (relation "measure id") auto

definition str_int :: "int \<Rightarrow> pystr" where
  \<comment> \<open>\<open>str(i)\<close> for an integer, as an f-string formats it\<close>
  "str_int i = (if i < 0 then 0x2D # digits (nat (- i)) else digits (nat i))"

definition href_matches :: "(nat \<Rightarrow> bool) \<Rightarrow> int \<Rightarrow> pystr \<Rightarrow> bool" where
  \<comment> \<open>\<open>re.match(rf"/events/artist/{artist_id}/\d+", href)\<close>: the pattern matches a prefix
      of \<open>href\<close>. The predicate \<open>isdigit\<close> is the Unicode table of decimal digits that
      \<open>\d\<close> stands for.\<close>
  "href_matches isdigit artist_id h =
     (let prefix = ascii ''/events/artist/'' @ str_int artist_id @ ascii ''/''
      in starts_with prefix h \<and>
         (case drop (length prefix) h of [] \<Rightarrow> False | c # cs \<Rightarrow> isdigit c))"

definition first_line :: "pystr \<Rightarrow> pystr" where
  \<comment> \<open>\<open>s.split("\n")[0]\<close>\<close>
  "first_line s = takeWhile (\<lambda>c. c \<noteq> 0x0A) s"

definition href_or_empty :: "link \<Rightarrow> pystr" where
  \<comment> \<open>\<open>link.get_attribute("href") or ""\<close>\<close>
  "href_or_empty l = (case href l of None \<Rightarrow> [] | Some h \<Rightarrow> h)"

definition event_of :: "link \<Rightarrow> event" where
  \<comment> \<open>the descriptor appended for a link\<close>
  "event_of l =
     \<lparr>name = first_line (strip (inner_text l)),
      url = BASE_URL @ href_or_empty l,
      path = href_or_empty l\<rparr>"

fun links_loop ::
  "(nat \<Rightarrow> bool) \<Rightarrow> int \<Rightarrow> link list \<Rightarrow> pystr set \<Rightarrow> event list \<Rightarrow> event list" where
  "links_loop isdigit artist_id [] seen events = events"
| "links_loop isdigit artist_id (l # rest) seen events =
     (if href_matches isdigit artist_id (href_or_empty l) \<and> href_or_empty l \<notin> seen
      then links_loop isdigit artist_id rest (insert (href_or_empty l) seen)
             (events @ [event_of l])
      else links_loop isdigit artist_id rest seen events)"

record env =
  nav :: "nat \<Rightarrow> response"   \<comment> \<open>the outcome of the n-th navigation of the cycle\<close>
  clock :: "nat \<Rightarrow> real"     \<comment> \<open>the n-th reading of \<open>datetime.now()\<close> that enters the state,
                                  in seconds\<close>

definition get_event_urls ::
  "(nat \<Rightarrow> bool) \<Rightarrow> env \<Rightarrow> nat \<Rightarrow> pystr \<Rightarrow> (raised + event list) \<times> nat" where
  \<comment> \<open>returns the events, or what the navigation raised, and the navigation counter\<close>
  "get_event_urls isdigit e i artist_name =
     (case map_of ARTIST_IDS artist_name of
        None \<Rightarrow> (Inr [], i)
      | Some artist_id \<Rightarrow>
          if artist_id = 0 then (Inr [], i)
          else (case nav e i of
                  Raises x \<Rightarrow> (Inl x, Suc i)
                | Rendered pg \<Rightarrow> (Inr (links_loop isdigit artist_id (links pg) {} []), Suc i)))"

section \<open>The state store and one poll cycle: \<open>run_check\<close>\<close>

text \<open>
  The state file holds the notified mapping and the time of the last check. The
  timestamps, ISO strings of \<open>datetime.now()\<close> in the source, are the seconds they
  stand for, as real numbers. A cycle reads its surroundings through \<open>env\<close>: the
  outcome of each navigation and each reading of the clock, in the order in which the
  cycle asks for them; the counters of the \<open>run\<close> say how many it has used. The
  state file is taken to be well formed and writable. \<open>send_line\<close> and
  \<open>notify_desktop\<close> catch what they raise, so the notifications of a cycle are the
  findings they are called on.
\<close>

record state =
  notified :: "pystr \<rightharpoonup> real"   \<comment> \<open>key to the time of its first notification\<close>
  last_check :: "real option"

definition load_state :: "state option \<Rightarrow> state" where
  \<comment> \<open>the argument is the state file: None when it does not exist\<close>
  "load_state file =
     (case file of Some s \<Rightarrow> s | None \<Rightarrow> \<lparr>notified = Map.empty, last_check = None\<rparr>)"

definition save_state :: "real \<Rightarrow> state \<Rightarrow> state option" where
  \<comment> \<open>returns the new content of the state file\<close>
  "save_state now s = Some (s\<lparr>last_check := Some now\<rparr>)"

record finding =
  f_artist :: pystr
  f_event_name :: pystr
  f_event_url :: pystr
  f_date :: pystr
  f_venue :: pystr
  f_tickets :: "pystr list"
  f_method :: detection_method

record run =
  nav_i :: nat                        \<comment> \<open>navigations done so far\<close>
  clk_i :: nat                        \<comment> \<open>clock readings done so far\<close>
  r_notified :: "pystr \<rightharpoonup> real"     \<comment> \<open>\<open>state["notified"]\<close>\<close>
  new_findings :: "finding list"

definition dedup_key :: "pystr \<Rightarrow> pystr \<Rightarrow> pystr \<Rightarrow> pystr" where
  \<comment> \<open>\<open>f"{event['path']}|{t['date']}|{t['venue']}"\<close>\<close>
  "dedup_key p d v = p @ [0x7C] @ d @ [0x7C] @ v"

definition notify_if_new :: "env \<Rightarrow> pystr \<Rightarrow> event \<Rightarrow> ticket \<Rightarrow> run \<Rightarrow> run" where
  \<comment> \<open>the body of the loop over the tickets of an event\<close>
  "notify_if_new e artist ev t r =
     (let key = dedup_key (path ev) (date t) (venue t)
      in if r_notified r key = None
         then r\<lparr>clk_i := Suc (clk_i r),
                r_notified := (r_notified r)(key \<mapsto> clock e (clk_i r)),
                new_findings := new_findings r @
                  [\<lparr>f_artist = artist, f_event_name = name ev, f_event_url = url ev,
                    f_date = date t, f_venue = venue t, f_tickets = tickets t,
                    f_method = t_method t\<rparr>]\<rparr>
         else r)"

fun tickets_loop :: "env \<Rightarrow> pystr \<Rightarrow> event \<Rightarrow> ticket list \<Rightarrow> run \<Rightarrow> run" where
  "tickets_loop e artist ev [] r = r"
| "tickets_loop e artist ev (t # ts) r =
     tickets_loop e artist ev ts (notify_if_new e artist ev t r)"

fun events_loop :: "env \<Rightarrow> pystr \<Rightarrow> event list \<Rightarrow> run \<Rightarrow> raised + run" where
  "events_loop e artist [] r = Inr r"
| "events_loop e artist (ev # rest) r =
     (case nav e (nav_i r) of
        Raises (Exception msg) \<Rightarrow> events_loop e artist rest (r\<lparr>nav_i := Suc (nav_i r)\<rparr>)
      | Raises x \<Rightarrow> Inl x
      | Rendered pg \<Rightarrow>
          (let ts = check_event_tickets (content pg);
               r1 = r\<lparr>nav_i := Suc (nav_i r)\<rparr>
           in if ts = [] then events_loop e artist rest r1
              else events_loop e artist rest (tickets_loop e artist ev ts r1)))"

fun artists_loop :: "(nat \<Rightarrow> bool) \<Rightarrow> env \<Rightarrow> pystr list \<Rightarrow> run \<Rightarrow> raised + run" where
  "artists_loop isdigit e [] r = Inr r"
| "artists_loop isdigit e (artist # rest) r =
     (case get_event_urls isdigit e (nav_i r) artist of
        (Inl x, i) \<Rightarrow> Inl x
      | (Inr events, i) \<Rightarrow>
          if events = [] then artists_loop isdigit e rest (r\<lparr>nav_i := i\<rparr>)
          else (case events_loop e artist events (r\<lparr>nav_i := i\<rparr>) of
                  Inl x \<Rightarrow> Inl x
                | Inr r1 \<Rightarrow> artists_loop isdigit e rest r1))"

definition prune :: "real \<Rightarrow> (pystr \<rightharpoonup> real) \<Rightarrow> (pystr \<rightharpoonup> real)" where
  \<comment> \<open>the dictionary comprehension that keeps the entries newer than the cutoff\<close>
  "prune now m =
     (let cutoff = now - 30 * 86400
      in (\<lambda>k. case m k of None \<Rightarrow> None | Some v \<Rightarrow> if v > cutoff then Some v else None))"

record cycle_result =
  cr_raised :: "raised option"         \<comment> \<open>what \<open>run_check\<close> raised, if it did\<close>
  cr_returned :: "finding list"        \<comment> \<open>the findings returned\<close>
  cr_notifications :: "finding list"   \<comment> \<open>one \<open>send_line\<close> and one \<open>notify_desktop\<close> each\<close>
  cr_file :: "state option"            \<comment> \<open>the state file after the cycle\<close>

definition start_run :: "state option \<Rightarrow> run" where
  "start_run file =
     \<lparr>nav_i = 0, clk_i = 0, r_notified = notified (load_state file), new_findings = []\<rparr>"

definition run_check :: "(nat \<Rightarrow> bool) \<Rightarrow> pystr list \<Rightarrow> env \<Rightarrow> state option \<Rightarrow> cycle_result" where
  "run_check isdigit ARTISTS e file =
     (case artists_loop isdigit e ARTISTS (start_run file) of
        Inl x \<Rightarrow> \<lparr>cr_raised = Some x, cr_returned = [], cr_notifications = [], cr_file = file\<rparr>
      | Inr r \<Rightarrow>
          \<lparr>cr_raised = None,
           cr_returned = new_findings r,
           cr_notifications = new_findings r,
           cr_file = save_state (clock e (Suc (clk_i r)))
                       ((load_state file)\<lparr>notified := prune (clock e (clk_i r)) (r_notified r)\<rparr>)\<rparr>)"

fun run_cycles ::
  "(nat \<Rightarrow> bool) \<Rightarrow> pystr list \<Rightarrow> state option \<Rightarrow> env list \<Rightarrow> cycle_result list" where
  \<comment> \<open>successive poll cycles, each one loading the file the previous one left\<close>
  "run_cycles isdigit ARTISTS file [] = []"
| "run_cycles isdigit ARTISTS file (e # es) =
     (let res = run_check isdigit ARTISTS e file
      in res # run_cycles isdigit ARTISTS (cr_file res) es)"

definition finding_key :: "finding \<Rightarrow> pystr" where
  \<comment> \<open>the key of the listing a finding reports: its event's path is its URL without
      \<open>BASE_URL\<close>\<close>
  "finding_key f = dedup_key (drop (length BASE_URL) (f_event_url f)) (f_date f) (f_venue f)"

definition cycle_keys :: "cycle_result \<Rightarrow> pystr set" where
  \<comment> \<open>the keys of the findings a cycle notified\<close>
  "cycle_keys res = finding_key ` set (cr_notifications res)"

definition saved :: "cycle_result \<Rightarrow> (pystr \<rightharpoonup> real)" where
  \<comment> \<open>the notified mapping in the state file a cycle left\<close>
  "saved res = notified (load_state (cr_file res))"

section \<open>The continuous mode of \<open>main\<close>\<close>

text \<open>
  Without \<open>--once\<close>, \<open>main\<close> runs \<open>run_check\<close> and sleeps, forever. The loop is
  driven here by the surroundings of its first iterations: for each, the environment
  of the cycle and the outcome of the sleep, which ends normally or is interrupted.
  With \<open>--once\<close>, \<open>main\<close> is a single call of \<open>run_check\<close>.
\<close>

datatype sleep_outcome = Slept | SleepKeyboardInterrupt | SleepCancelled

datatype action =
    Ran cycle_result     \<comment> \<open>a call of \<open>run_check\<close>\<close>
  | LogError pystr       \<comment> \<open>the log line with the exception's message\<close>
  | PrintTraceback
  | LogNextCheck         \<comment> \<open>the log line announcing the next check\<close>
  | Sleep                \<comment> \<open>\<open>asyncio.sleep(CHECK_INTERVAL)\<close> was awaited\<close>
  | LogFinished          \<comment> \<open>the log line after the loop\<close>

datatype status =
    Running              \<comment> \<open>still inside \<open>while True\<close>\<close>
  | Returned             \<comment> \<open>the loop was left by \<open>break\<close> and \<open>main\<close> returned\<close>
  | Propagated raised    \<comment> \<open>\<open>main\<close> raised\<close>

type_synonym loop_result = "action list \<times> status \<times> state option"

fun after_cycle :: "action list \<Rightarrow> state option \<Rightarrow> sleep_outcome \<Rightarrow> loop_result \<Rightarrow> loop_result" where
  \<comment> \<open>the end of an iteration whose cycle did not leave the loop: the log line, the
      sleep, and then the rest of the loop\<close>
  "after_cycle acts file Slept (acts', st, file') = (acts @ [LogNextCheck, Sleep] @ acts', st, file')"
| "after_cycle acts file SleepKeyboardInterrupt rest =
     (acts @ [LogNextCheck, Sleep, LogFinished], Returned, file)"
| "after_cycle acts file SleepCancelled rest =
     (acts @ [LogNextCheck, Sleep], Propagated CancelledError, file)"

fun main_loop ::
  "(nat \<Rightarrow> bool) \<Rightarrow> pystr list \<Rightarrow> state option \<Rightarrow> (env \<times> sleep_outcome) list \<Rightarrow> loop_result"
  where
  \<comment> \<open>\<open>while True\<close> driven by the outcomes of the first cycles and sleeps; when they
      are used up the loop is still running. The result is what was done, where the loop
      stands, and the state file.\<close>
  "main_loop isdigit ARTISTS file [] = ([], Running, file)"
| "main_loop isdigit ARTISTS file ((e, sl) # script) =
     (let res = run_check isdigit ARTISTS e file;
          rest = main_loop isdigit ARTISTS (cr_file res) script
      in case cr_raised res of
           Some KeyboardInterrupt \<Rightarrow> ([Ran res, LogFinished], Returned, cr_file res)
         | Some (Exception msg) \<Rightarrow>
             after_cycle [Ran res, LogError msg, PrintTraceback] (cr_file res) sl rest
         | Some CancelledError \<Rightarrow> ([Ran res], Propagated CancelledError, cr_file res)
         | None \<Rightarrow> after_cycle [Ran res] (cr_file res) sl rest)"

section \<open>What a cycle observes\<close>

text \<open>
  The listings a cycle comes across, in the order of the loops and whatever the state
  holds: the same traversal as \<open>events_loop\<close> and \<open>artists_loop\<close>, with the navigation
  counter alone.
\<close>

type_synonym observation = "pystr \<times> event \<times> ticket"

definition obs_key :: "observation \<Rightarrow> pystr" where
  "obs_key ob = (case ob of (artist, ev, t) \<Rightarrow> dedup_key (path ev) (date t) (venue t))"

fun events_obs :: "env \<Rightarrow> pystr \<Rightarrow> event list \<Rightarrow> nat \<Rightarrow> raised + (observation list \<times> nat)" where
  "events_obs e artist [] i = Inr ([], i)"
| "events_obs e artist (ev # rest) i =
     (case nav e i of
        Raises (Exception msg) \<Rightarrow> events_obs e artist rest (Suc i)
      | Raises x \<Rightarrow> Inl x
      | Rendered pg \<Rightarrow>
          (case events_obs e artist rest (Suc i) of
             Inl x \<Rightarrow> Inl x
           | Inr (obs, j) \<Rightarrow>
               Inr (map (\<lambda>t. (artist, ev, t)) (check_event_tickets (content pg)) @ obs, j)))"

fun artists_obs ::
  "(nat \<Rightarrow> bool) \<Rightarrow> env \<Rightarrow> pystr list \<Rightarrow> nat \<Rightarrow> raised + (observation list \<times> nat)" where
  "artists_obs isdigit e [] i = Inr ([], i)"
| "artists_obs isdigit e (artist # rest) i =
     (case get_event_urls isdigit e i artist of
        (Inl x, j) \<Rightarrow> Inl x
      | (Inr events, j) \<Rightarrow>
          (case events_obs e artist events j of
             Inl x \<Rightarrow> Inl x
           | Inr (obs, k) \<Rightarrow>
               (case artists_obs isdigit e rest k of
                  Inl x \<Rightarrow> Inl x
                | Inr (obs', l) \<Rightarrow> Inr (obs @ obs', l))))"

definition observed :: "(nat \<Rightarrow> bool) \<Rightarrow> pystr list \<Rightarrow> env \<Rightarrow> raised + observation list" where
  "observed isdigit ARTISTS e =
     (case artists_obs isdigit e ARTISTS 0 of Inl x \<Rightarrow> Inl x | Inr (obs, i) \<Rightarrow> Inr obs)"

fun record_all :: "env \<Rightarrow> observation list \<Rightarrow> run \<Rightarrow> run" where
  "record_all e [] r = r"
| "record_all e ((artist, ev, t) # obs) r = record_all e obs (notify_if_new e artist ev t r)"

definition tidy :: "run \<Rightarrow> bool" where
  \<comment> \<open>the findings so far report distinct keys, all of them notified\<close>
  "tidy r \<longleftrightarrow> distinct (map finding_key (new_findings r))
     \<and> set (map finding_key (new_findings r)) \<subseteq> dom (r_notified r)"

section \<open>Distinct elements in order\<close>

function uniq :: "'a list \<Rightarrow> 'a list" where
  \<comment> \<open>every element once, at the place of its first occurrence\<close>
  "uniq [] = []"
| "uniq (x # xs) = x # uniq (filter (\<lambda>y. y \<noteq> x) xs)"
  by pat_completeness auto
termination
  by (relation "measure length") (auto simp: less_Suc_eq_le)

section \<open>Concrete pages and cycles\<close>

text \<open>Inputs on which the definitions above are evaluated further down.\<close>

definition select_control :: node where
  "select_control =
     Element (ascii ''select'') [ascii ''ticket-select''] []
       [Element (ascii ''option'') [] [(ascii ''data-ticket-no'', ascii ''1'')] [Text (ascii ''2'')],
        Element (ascii ''option'') [] [] [Text (ascii ''-'')]]"

definition open_block :: node where
  "open_block =
     Element (ascii ''div'') [ascii ''perform-list''] []
       [Element (ascii ''div'') [ascii ''lead''] [] [Text (ascii '' 12/25 '')],
        Element (ascii ''p'') [] [] [Text (ascii ''Hall A'')],
        select_control]"

definition muted_block :: node where
  "muted_block =
     Element (ascii ''div'') [ascii ''perform-list'', ascii ''text-muted''] []
       [Element (ascii ''div'') [ascii ''lead''] [] [Text (ascii ''12/26'')],
        Element (ascii ''p'') [] [] [Text (ascii ''Hall B'')]]"

definition page_select_and_muted :: document where
  \<comment> \<open>a block with a selection control, a muted block and a purchase button\<close>
  "page_select_and_muted =
     [open_block, muted_block, Element (ascii ''button'') [] [] [Text purchase_phrase]]"

definition page_sold_out :: document where
  \<comment> \<open>one muted block and a button with another text\<close>
  "page_sold_out = [muted_block, Element (ascii ''button'') [] [] [Text (ascii ''Back'')]]"

definition buy_button :: node where
  "buy_button = Element (ascii ''button'') [] [] [Text purchase_phrase]"

definition buy_anchor :: node where
  "buy_anchor = Element (ascii ''a'') [ascii ''btn''] [] [Text (purchase_phrase @ [0x3078])]"

definition page_two_buttons :: document where
  \<comment> \<open>no block, and two clickable elements with the purchase phrase\<close>
  "page_two_buttons = [buy_button, buy_anchor]"

definition ascii_digit :: "nat \<Rightarrow> bool" where
  \<comment> \<open>the ASCII part of the table of decimal digits\<close>
  "ascii_digit c \<longleftrightarrow> 0x30 \<le> c \<and> c \<le> 0x39"

definition listing_page :: page where
  \<comment> \<open>an artist page with one event link\<close>
  "listing_page =
     \<lparr>links = [\<lparr>href = Some (ascii ''/events/artist/38/101''), inner_text = ascii ''Winter Live''\<rparr>],
      content = []\<rparr>"

definition event_page :: page where
  \<comment> \<open>an event page whose only block has a selection control\<close>
  "event_page = \<lparr>links = [], content = [open_block]\<rparr>"

definition event_101 :: event where
  "event_101 =
     \<lparr>name = ascii ''Winter Live'',
      url = ascii ''https://relief-ticket.jp/events/artist/38/101'',
      path = ascii ''/events/artist/38/101''\<rparr>"

definition ticket_1225 :: ticket where
  "ticket_1225 =
     \<lparr>date = ascii ''12/25'', venue = ascii ''Hall A'', tickets = [ascii ''2''], t_method = SELECT\<rparr>"

definition finding_101 :: finding where
  "finding_101 =
     \<lparr>f_artist = ascii ''Travis Japan'', f_event_name = ascii ''Winter Live'',
      f_event_url = ascii ''https://relief-ticket.jp/events/artist/38/101'',
      f_date = ascii ''12/25'', f_venue = ascii ''Hall A'', f_tickets = [ascii ''2''],
      f_method = SELECT\<rparr>"

definition key_101 :: pystr where
  "key_101 = ascii ''/events/artist/38/101|12/25|Hall A''"

definition timeout_error :: raised where
  "timeout_error = Exception (ascii ''Timeout 30000ms exceeded'')"

definition env_one :: env where
  \<comment> \<open>a cycle that renders the artist page and then the event page\<close>
  "env_one =
     \<lparr>nav = (\<lambda>n. if n = 0 then Rendered listing_page else Rendered event_page),
      clock = (\<lambda>n. 5000000)\<rparr>"

definition env_second_artist_fails :: env where
  \<comment> \<open>the first artist's page and event render; the third navigation, to the second
      artist's page, times out\<close>
  "env_second_artist_fails =
     \<lparr>nav = (\<lambda>n. if n = 0 then Rendered listing_page
                 else if n = 1 then Rendered event_page
                 else Raises timeout_error),
      clock = (\<lambda>n. 5000000)\<rparr>"


definition file_boundary :: "state option" where
  \<comment> \<open>two entries, one second to either side of 30 days before the time 5000000\<close>
  "file_boundary =
     Some \<lparr>notified = [ascii ''a'' \<mapsto> 5000000 - 30 * 86400 - 1,
                        ascii ''b'' \<mapsto> 5000000 - 30 * 86400 + 1],
           last_check = None\<rparr>"

definition first_link :: link where
  \<comment> \<open>a link whose visible text starts with a line break and has two lines\<close>
  "first_link =
     \<lparr>href = Some (ascii ''/events/artist/38/101''),
      inner_text = [0x0A] @ ascii ''Winter Live'' @ [0x0A] @ ascii ''Tokyo Dome ''\<rparr>"

definition listing_twice :: page where
  \<comment> \<open>an artist page that links the same event twice, and another page in between\<close>
  "listing_twice =
     \<lparr>links = [first_link,
               \<lparr>href = Some (ascii ''/about''), inner_text = ascii ''About''\<rparr>,
               \<lparr>href = None, inner_text = ascii ''Top''\<rparr>,
               \<lparr>href = Some (ascii ''/events/artist/38/101''), inner_text = ascii ''Details''\<rparr>],
      content = []\<rparr>"

definition env_twice :: env where
  "env_twice = \<lparr>nav = (\<lambda>n. Rendered listing_twice), clock = (\<lambda>n. 5000000)\<rparr>"

definition env_interrupted :: env where
  \<comment> \<open>the first artist's page and event render; an interrupt arrives during the third
      navigation\<close>
  "env_interrupted =
     \<lparr>nav = (\<lambda>n. if n = 0 then Rendered listing_page
                 else if n = 1 then Rendered event_page
                 else Raises KeyboardInterrupt),
      clock = (\<lambda>n. 5000000)\<rparr>"

definition file_exact :: "state option" where
  \<comment> \<open>one entry, exactly 30 days before the time 5000000\<close>
  "file_exact =
     Some \<lparr>notified = [ascii ''c'' \<mapsto> 5000000 - 30 * 86400], last_check = None\<rparr>"

definition ticket_evening :: ticket where
  \<comment> \<open>a listing whose date text holds the separator\<close>
  "ticket_evening =
     \<lparr>date = ascii ''12/25|18:00'', venue = ascii ''Hall A'', tickets = [], t_method = ACTIVE\<rparr>"

definition ticket_annex :: ticket where
  \<comment> \<open>another listing, whose venue text holds the separator\<close>
  "ticket_annex =
     \<lparr>date = ascii ''12/25'', venue = ascii ''18:00|Hall A'', tickets = [], t_method = ACTIVE\<rparr>"

section \<open>Properties of the detector\<close>

lemma ascii_eq_iff: "ascii s = ascii t \<longleftrightarrow> s = t"
  by (simp add: ascii_def inj_on_def)

lemmas page_eval =
  check_event_tickets_def method1_def method2_def method3_def
  ticket_selects_def perform_lists_def clickables_def doc_elements_def
  has_class_def has_tag_def has_attr_def attr_is_ci_def is_clickable_def is_ticket_option_def
  find_parent_def select_one_def descendants_def text_or_unknown_def get_text_def
  select_entry_def active_entry_def
  ascii_eq_iff Let_def

lemmas example_pages =
  page_select_and_muted_def open_block_def muted_block_def select_control_def
  page_sold_out_def page_two_buttons_def buy_button_def buy_anchor_def

lemma method1_loop_eq: "method1_loop xs acc = acc @ select_entries xs"
proof (induction xs arbitrary: acc)
  case Nil
  show ?case by simp
next
  case (Cons x xs)
  obtain sel anc where x: "x = (sel, anc)" by (cases x)
  show ?case unfolding x by (simp add: Cons.IH split: option.splits)
qed

lemma method2_loop_eq:
  "method2_loop xs acc =
     acc @ map active_entry (filter (\<lambda>d. ascii ''text-muted'' \<notin> set (classes_of d)) xs)"
  by (induction xs arbitrary: acc) simp_all

lemma method3_loop_eq:
  "method3_loop xs acc =
     acc @ map (\<lambda>b. button_entry) (filter (\<lambda>b. py_in purchase_phrase (get_text b)) xs)"
  by (induction xs arbitrary: acc) simp_all

lemma select_entries_SELECT: "t \<in> set (select_entries xs) \<Longrightarrow> t_method t = SELECT"
proof (induction xs)
  case Nil
  then show ?case by simp
next
  case (Cons x xs)
  obtain sel anc where x: "x = (sel, anc)" by (cases x)
  from Cons show ?case unfolding x
    by (auto simp: select_entry_def split: option.splits)
qed

lemma select_entries_nonempty:
  "(sel, anc) \<in> set xs \<Longrightarrow> find_parent anc \<noteq> None \<Longrightarrow> select_entries xs \<noteq> []"
proof (induction xs)
  case Nil
  then show ?case by simp
next
  case (Cons x xs)
  obtain s a where x: "x = (s, a)" by (cases x)
  from Cons show ?case unfolding x
    by (auto split: option.splits)
qed

lemma check_event_tickets_cases:
  "check_event_tickets doc =
     (if method1 doc \<noteq> [] then method1 doc
      else if method2 doc \<noteq> [] then method2 doc
      else method3 doc)"
  by (simp add: check_event_tickets_def method1_def method2_def method3_def Let_def)



lemma phrase_ne: "purchase_phrase \<noteq> []"
  by (simp add: purchase_phrase_def)



lemma strip_back: "\<not> py_in purchase_phrase (strip (ascii ''Back''))"
  by (simp add: strip_def is_space_def purchase_phrase_def ascii_def)

text \<open>
  C2. The detector applies its three strategies in priority order and stops at the first
  one that yields a result: its result is that of strategy 1 when this is not empty,
  else that of strategy 2 when this is not empty, else that of strategy 3. Each strategy
  marks its entries with its own method. In particular, on a page with a selection control
  (class \<open>ticket-select\<close>) inside a performance block (a \<open>div\<close> of class
  \<open>perform-list\<close>), whatever other blocks the page has, the result is exactly the
  result of strategy 1, it is not empty, and every entry of it is a selection-control
  entry.
\<close>

theorem strategy_priority:
  "check_event_tickets doc =
     (if method1 doc \<noteq> [] then method1 doc
      else if method2 doc \<noteq> [] then method2 doc
      else method3 doc)
   \<and> (\<forall>t \<in> set (method1 doc). t_method t = SELECT)
   \<and> (\<forall>t \<in> set (method2 doc). t_method t = ACTIVE)
   \<and> (\<forall>t \<in> set (method3 doc). t_method t = BUTTON)
   \<and> ((\<exists>sel anc a. (sel, anc) \<in> set (doc_elements doc) \<and> has_class (ascii ''ticket-select'') sel
          \<and> a \<in> set anc \<and> has_tag (ascii ''div'') a \<and> has_class (ascii ''perform-list'') a)
        \<longrightarrow> check_event_tickets doc = method1 doc \<and> check_event_tickets doc \<noteq> []
            \<and> (\<forall>t \<in> set (check_event_tickets doc). t_method t = SELECT))"
proof -
  note eq = check_event_tickets_cases [of doc]
  have m1: "\<forall>t \<in> set (method1 doc). t_method t = SELECT"
    by (simp add: method1_def method1_loop_eq select_entries_SELECT)
  have m2: "\<forall>t \<in> set (method2 doc). t_method t = ACTIVE"
    by (auto simp: method2_def method2_loop_eq active_entry_def)
  have m3: "\<forall>t \<in> set (method3 doc). t_method t = BUTTON"
    by (auto simp: method3_def method3_loop_eq button_entry_def)
  have pre: "check_event_tickets doc = method1 doc \<and> check_event_tickets doc \<noteq> []
            \<and> (\<forall>t \<in> set (check_event_tickets doc). t_method t = SELECT)"
    if h: "(sel, anc) \<in> set (doc_elements doc)" "has_class (ascii ''ticket-select'') sel"
      "a \<in> set anc" "has_tag (ascii ''div'') a" "has_class (ascii ''perform-list'') a"
    for sel anc a
  proof -
    from h(3,4,5)
    have "filter (\<lambda>a. has_tag (ascii ''div'') a \<and> has_class (ascii ''perform-list'') a) anc \<noteq> []"
      by (auto simp: filter_empty_conv)
    then have fp: "find_parent anc \<noteq> None"
      by (simp add: find_parent_def split: list.splits)
    from h(1,2) have "(sel, anc) \<in> set (ticket_selects doc)"
      by (simp add: ticket_selects_def)
    then have "method1 doc \<noteq> []"
      using fp by (simp add: method1_def method1_loop_eq select_entries_nonempty)
    with eq m1 show ?thesis by simp
  qed
  from eq m1 m2 m3 pre show ?thesis by blast
qed

theorem strategy_priority_witness:
  "(select_control, [open_block]) \<in> set (doc_elements page_select_and_muted)
   \<and> has_class (ascii ''ticket-select'') select_control
   \<and> has_tag (ascii ''div'') open_block \<and> has_class (ascii ''perform-list'') open_block
   \<and> has_class (ascii ''text-muted'') muted_block
   \<and> check_event_tickets page_select_and_muted = method1 page_select_and_muted
   \<and> check_event_tickets page_select_and_muted \<noteq> []"
proof -
  have mem: "(select_control, [open_block]) \<in> set (doc_elements page_select_and_muted)"
    by (simp add: doc_elements_def example_pages)
  have cls: "has_class (ascii ''ticket-select'') select_control
      \<and> has_tag (ascii ''div'') open_block \<and> has_class (ascii ''perform-list'') open_block
      \<and> has_class (ascii ''text-muted'') muted_block"
    by (simp add: has_tag_def has_class_def example_pages)
  from mem cls
  have "\<exists>sel anc a. (sel, anc) \<in> set (doc_elements page_select_and_muted)
          \<and> has_class (ascii ''ticket-select'') sel
          \<and> a \<in> set anc \<and> has_tag (ascii ''div'') a \<and> has_class (ascii ''perform-list'') a"
    by (intro exI [of _ select_control] exI [of _ "[open_block]"] exI [of _ open_block]) simp
  with strategy_priority [of page_select_and_muted] mem cls show ?thesis by blast
qed

text \<open>
  C7. On a page where every element of class \<open>perform-list\<close> also has the class
  \<open>text-muted\<close>, no element has the class \<open>ticket-select\<close>, and no clickable element
  (button, submit input, anchor of class \<open>btn\<close>) has a text containing the purchase
  phrase, the detector returns the empty list, as an ordinary value.
\<close>

theorem empty_on_sold_out:
  assumes muted: "\<forall>d \<in> set (map fst (doc_elements doc)).
                    has_class (ascii ''perform-list'') d \<longrightarrow> has_class (ascii ''text-muted'') d"
    and no_select: "\<forall>s \<in> set (map fst (doc_elements doc)). \<not> has_class (ascii ''ticket-select'') s"
    and no_button: "\<forall>b \<in> set (map fst (doc_elements doc)).
                    is_clickable b \<longrightarrow> \<not> py_in purchase_phrase (get_text b)"
  shows "check_event_tickets doc = []"
proof -
  from no_select have "ticket_selects doc = []"
    by (auto simp: ticket_selects_def filter_empty_conv)
  then have m1: "method1 doc = []"
    by (simp add: method1_def)
  from muted
  have "filter (\<lambda>d. ascii ''text-muted'' \<notin> set (classes_of d)) (perform_lists doc) = []"
    by (auto simp: perform_lists_def filter_empty_conv has_class_def)
  then have m2: "method2 doc = []"
    by (simp add: method2_def method2_loop_eq)
  from no_button
  have "filter (\<lambda>b. py_in purchase_phrase (get_text b)) (clickables doc) = []"
    by (auto simp: clickables_def filter_empty_conv)
  then have m3: "method3 doc = []"
    by (simp add: method3_def method3_loop_eq)
  from m1 m2 m3 show ?thesis
    by (simp add: check_event_tickets_cases)
qed

theorem empty_on_sold_out_witness:
  "map fst (doc_elements page_sold_out) =
     [muted_block,
      Element (ascii ''div'') [ascii ''lead''] [] [Text (ascii ''12/26'')],
      Element (ascii ''p'') [] [] [Text (ascii ''Hall B'')],
      Element (ascii ''button'') [] [] [Text (ascii ''Back'')]]
   \<and> has_class (ascii ''perform-list'') muted_block
   \<and> check_event_tickets page_sold_out = []"
proof -
  have els: "map fst (doc_elements page_sold_out) =
     [muted_block,
      Element (ascii ''div'') [ascii ''lead''] [] [Text (ascii ''12/26'')],
      Element (ascii ''p'') [] [] [Text (ascii ''Hall B'')],
      Element (ascii ''button'') [] [] [Text (ascii ''Back'')]]"
    by (simp add: doc_elements_def example_pages)
  have pl: "has_class (ascii ''perform-list'') muted_block"
    by (simp add: has_class_def example_pages)
  have h1: "\<forall>d \<in> set (map fst (doc_elements page_sold_out)).
              has_class (ascii ''perform-list'') d \<longrightarrow> has_class (ascii ''text-muted'') d"
    unfolding els by (simp add: has_class_def example_pages ascii_eq_iff)
  have h2: "\<forall>s \<in> set (map fst (doc_elements page_sold_out)).
              \<not> has_class (ascii ''ticket-select'') s"
    unfolding els by (simp add: has_class_def example_pages ascii_eq_iff)
  have h3: "\<forall>b \<in> set (map fst (doc_elements page_sold_out)).
              is_clickable b \<longrightarrow> \<not> py_in purchase_phrase (get_text b)"
    unfolding els
    by (simp add: is_clickable_def has_tag_def has_class_def get_text_def example_pages
        ascii_eq_iff strip_back phrase_ne)
  from empty_on_sold_out [OF h1 h2 h3] els pl show ?thesis by simp
qed





section \<open>A cycle as the record of its observations\<close>

lemma notify_if_new_nav:
  "notify_if_new e a ev t (r\<lparr>nav_i := n\<rparr>) = (notify_if_new e a ev t r)\<lparr>nav_i := n\<rparr>"
  by (simp add: notify_if_new_def Let_def)

lemma record_all_nav: "record_all e obs (r\<lparr>nav_i := n\<rparr>) = (record_all e obs r)\<lparr>nav_i := n\<rparr>"
  by (induction e obs r rule: record_all.induct) (simp_all add: notify_if_new_nav)

lemma record_all_append: "record_all e (xs @ ys) r = record_all e ys (record_all e xs r)"
  by (induction e xs r rule: record_all.induct) simp_all

lemma tickets_loop_eq:
  "tickets_loop e a ev ts r = record_all e (map (\<lambda>t. (a, ev, t)) ts) r"
  by (induction ts arbitrary: r) simp_all

lemma nav_i_notify [simp]: "nav_i (notify_if_new e a ev t r) = nav_i r"
  by (simp add: notify_if_new_def Let_def)

lemma nav_i_record_all [simp]: "nav_i (record_all e obs r) = nav_i r"
  by (induction e obs r rule: record_all.induct) simp_all

lemma events_loop_eq:
  "events_loop e a evs r =
     (case events_obs e a evs (nav_i r) of
        Inl x \<Rightarrow> Inl x
      | Inr (obs, j) \<Rightarrow> Inr ((record_all e obs r)\<lparr>nav_i := j\<rparr>))"
proof (induction evs arbitrary: r)
  case Nil
  show ?case by simp
next
  case (Cons ev evs)
  show ?case
  proof (cases "nav e (nav_i r)")
    case (Raises x)
    then show ?thesis
      by (cases x) (simp_all add: Cons.IH record_all_nav split: sum.splits prod.splits)
  next
    case (Rendered pg)
    then show ?thesis
      by (simp add: Cons.IH Let_def tickets_loop_eq record_all_nav record_all_append
          split: sum.splits prod.splits)
  qed
qed

lemma artists_loop_eq:
  "artists_loop nd e as r =
     (case artists_obs nd e as (nav_i r) of
        Inl x \<Rightarrow> Inl x
      | Inr (obs, j) \<Rightarrow> Inr ((record_all e obs r)\<lparr>nav_i := j\<rparr>))"
proof (induction as arbitrary: r)
  case Nil
  show ?case by simp
next
  case (Cons a as)
  obtain res j where g: "get_event_urls nd e (nav_i r) a = (res, j)"
    by (cases "get_event_urls nd e (nav_i r) a")
  show ?case
  proof (cases res)
    case (Inl x)
    with g show ?thesis by simp
  next
    case (Inr events)
    show ?thesis
    proof (cases "events = []")
      case True
      with g Inr show ?thesis
        by (simp add: Cons.IH record_all_nav split: sum.splits prod.splits)
    next
      case False
      with g Inr show ?thesis
        by (simp add: Cons.IH events_loop_eq record_all_nav record_all_append
            split: sum.splits prod.splits)
    qed
  qed
qed

lemma run_check_eq:
  "run_check nd A e file =
     (case observed nd A e of
        Inl x \<Rightarrow> \<lparr>cr_raised = Some x, cr_returned = [], cr_notifications = [], cr_file = file\<rparr>
      | Inr obs \<Rightarrow>
          (let r = record_all e obs (start_run file)
           in \<lparr>cr_raised = None,
               cr_returned = new_findings r,
               cr_notifications = new_findings r,
               cr_file = save_state (clock e (Suc (clk_i r)))
                       ((load_state file)\<lparr>notified := prune (clock e (clk_i r)) (r_notified r)\<rparr>)\<rparr>))"
  by (simp add: run_check_def observed_def artists_loop_eq start_run_def Let_def
      split: sum.splits prod.splits)

lemma links_loop_url:
  "\<forall>ev \<in> set evs. url ev = BASE_URL @ path ev \<Longrightarrow>
   \<forall>ev \<in> set (links_loop nd aid ls seen evs). url ev = BASE_URL @ path ev"
proof (induction ls arbitrary: seen evs)
  case Nil
  then show ?case by simp
next
  case (Cons l ls)
  have "\<forall>ev \<in> set (evs @ [event_of l]). url ev = BASE_URL @ path ev"
    using Cons.prems by (simp add: event_of_def)
  from Cons.IH [OF this] Cons.IH [OF Cons.prems] show ?case by simp
qed

lemma get_event_urls_url:
  "get_event_urls nd e i a = (Inr evs, j) \<Longrightarrow> \<forall>ev \<in> set evs. url ev = BASE_URL @ path ev"
  using links_loop_url [of "[]"]
  by (auto simp: get_event_urls_def split: option.splits if_splits response.splits)

lemma events_obs_url:
  "\<forall>ev \<in> set evs. url ev = BASE_URL @ path ev \<Longrightarrow> events_obs e a evs i = Inr (obs, j) \<Longrightarrow>
   \<forall>ob \<in> set obs. url (fst (snd ob)) = BASE_URL @ path (fst (snd ob))"
proof (induction evs arbitrary: i obs)
  case Nil
  then show ?case by simp
next
  case (Cons ev evs)
  show ?case
  proof (cases "nav e i")
    case (Raises x)
    with Cons show ?thesis by (cases x) auto
  next
    case (Rendered pg)
    with Cons.prems obtain obs' where o: "events_obs e a evs (Suc i) = Inr (obs', j)"
      and obs: "obs = map (\<lambda>t. (a, ev, t)) (check_event_tickets (content pg)) @ obs'"
      by (auto split: sum.splits prod.splits)
    from Cons.IH [OF _ o] Cons.prems(1) obs show ?thesis by auto
  qed
qed

lemma artists_obs_url:
  "artists_obs nd e as i = Inr (obs, j) \<Longrightarrow>
   \<forall>ob \<in> set obs. url (fst (snd ob)) = BASE_URL @ path (fst (snd ob))"
proof (induction as arbitrary: i obs)
  case Nil
  then show ?case by simp
next
  case (Cons a as)
  from Cons.prems obtain evs i1 obs1 i2 obs2
    where g: "get_event_urls nd e i a = (Inr evs, i1)"
      and eo: "events_obs e a evs i1 = Inr (obs1, i2)"
      and ao: "artists_obs nd e as i2 = Inr (obs2, j)"
      and obs: "obs = obs1 @ obs2"
    by (auto split: sum.splits prod.splits)
  from events_obs_url [OF get_event_urls_url [OF g] eo] Cons.IH [OF ao] obs
  show ?case by auto
qed

lemma observed_url:
  "observed nd A e = Inr obs \<Longrightarrow>
   \<forall>ob \<in> set obs. url (fst (snd ob)) = BASE_URL @ path (fst (snd ob))"
  by (auto simp: observed_def split: sum.splits prod.splits dest: artists_obs_url)

lemma notify_if_new_keep:
  "r_notified r k = Some ts \<Longrightarrow> r_notified (notify_if_new e a ev t r) k = Some ts"
  by (auto simp: notify_if_new_def Let_def)

lemma record_all_keep:
  "r_notified r k = Some ts \<Longrightarrow> r_notified (record_all e obs r) k = Some ts"
  by (induction e obs r rule: record_all.induct) (simp_all add: notify_if_new_keep)

lemma dom_notify_if_new:
  "dom (r_notified (notify_if_new e a ev t r)) = insert (obs_key (a, ev, t)) (dom (r_notified r))"
  by (auto simp: notify_if_new_def obs_key_def Let_def)

lemma dom_record_all:
  "dom (r_notified (record_all e obs r)) = dom (r_notified r) \<union> obs_key ` set obs"
  by (induction e obs r rule: record_all.induct) (auto simp: dom_notify_if_new)

lemma findings_notify_if_new:
  assumes "url ev = BASE_URL @ path ev"
  shows "map finding_key (new_findings (notify_if_new e a ev t r)) =
           (if obs_key (a, ev, t) \<in> dom (r_notified r) then map finding_key (new_findings r)
            else map finding_key (new_findings r) @ [obs_key (a, ev, t)])"
  using assms by (auto simp: notify_if_new_def obs_key_def finding_key_def Let_def)

lemma tidy_notify_if_new:
  assumes u: "url ev = BASE_URL @ path ev" and t: "tidy r"
  shows "tidy (notify_if_new e a ev t r)"
proof (cases "obs_key (a, ev, t) \<in> dom (r_notified r)")
  case True
  have "map finding_key (new_findings (notify_if_new e a ev t r)) =
      map finding_key (new_findings r)"
    using True findings_notify_if_new [OF u, of e a t r] by simp
  with t show ?thesis
    unfolding tidy_def dom_notify_if_new by auto
next
  case False
  have keys: "map finding_key (new_findings (notify_if_new e a ev t r)) =
      map finding_key (new_findings r) @ [obs_key (a, ev, t)]"
    using False findings_notify_if_new [OF u, of e a t r] by simp
  from t False have "obs_key (a, ev, t) \<notin> set (map finding_key (new_findings r))"
    unfolding tidy_def by auto
  with t show ?thesis
    unfolding tidy_def keys dom_notify_if_new by auto
qed

lemma tidy_record_all:
  "\<forall>ob \<in> set obs. url (fst (snd ob)) = BASE_URL @ path (fst (snd ob)) \<Longrightarrow> tidy r \<Longrightarrow>
   tidy (record_all e obs r)"
  by (induction e obs r rule: record_all.induct) (simp_all add: tidy_notify_if_new)

lemma keys_record_all:
  "\<forall>ob \<in> set obs. url (fst (snd ob)) = BASE_URL @ path (fst (snd ob)) \<Longrightarrow>
   set (map finding_key (new_findings (record_all e obs r))) =
     set (map finding_key (new_findings r)) \<union> (obs_key ` set obs - dom (r_notified r))"
proof (induction e obs r rule: record_all.induct)
  case (1 e r)
  show ?case by simp
next
  case (2 e a ev t obs r)
  from "2.prems" have u: "url ev = BASE_URL @ path ev"
    and rest: "\<forall>ob \<in> set obs. url (fst (snd ob)) = BASE_URL @ path (fst (snd ob))"
    by simp_all
  show ?case
    using "2.IH" [OF rest] findings_notify_if_new [OF u, of e a t r]
      dom_notify_if_new [of e a ev t r]
    by (cases "obs_key (a, ev, t) \<in> dom (r_notified r)") auto
qed

section \<open>The concrete cycles evaluated\<close>

lemma digits_38: "str_int 38 = ascii ''38''"
  by (simp add: str_int_def ascii_def)

lemma match_101: "href_matches ascii_digit 38 (ascii ''/events/artist/38/101'')"
  by (simp add: href_matches_def digits_38 Let_def) (simp add: ascii_def ascii_digit_def)

lemma name_101: "first_line (strip (ascii ''Winter Live'')) = ascii ''Winter Live''"
  by (simp add: first_line_def strip_def is_space_def ascii_def)

lemma base_101: "BASE_URL @ ascii ''/events/artist/38/101'' = ascii ''https://relief-ticket.jp/events/artist/38/101''"
  by (simp add: BASE_URL_def ascii_def)

lemma links_101: "links_loop ascii_digit 38 (links listing_page) {} [] = [event_101]"
  by (simp add: listing_page_def href_or_empty_def event_of_def match_101 name_101 base_101 event_101_def)

lemma get_event_urls_101:
  "nav e i = Rendered listing_page \<Longrightarrow>
   get_event_urls ascii_digit e i (ascii ''Travis Japan'') = (Inr [event_101], Suc i)"
  by (simp add: get_event_urls_def ARTIST_IDS_def links_101)

lemma get_event_urls_fails:
  "nav e i = Raises x \<Longrightarrow>
   get_event_urls ascii_digit e i (ascii ''SixTONES'') = (Inl x, Suc i)"
  by (simp add: get_event_urls_def ARTIST_IDS_def ascii_eq_iff)

lemma strips: "strip (ascii '' 12/25 '') = ascii ''12/25'' \<and> strip (ascii ''Hall A'') = ascii ''Hall A''
   \<and> strip (ascii ''2'') = ascii ''2''"
  by (simp add: strip_def is_space_def ascii_def)

lemma tickets_event_page: "check_event_tickets (content event_page) = [ticket_1225]"
  by (simp add: event_page_def example_pages page_eval strips ticket_1225_def)

lemma key_101_eq: "obs_key (a, event_101, ticket_1225) = key_101"
  by (simp add: obs_key_def dedup_key_def event_101_def ticket_1225_def key_101_def ascii_def)

lemma observed_one:
  "observed ascii_digit [ascii ''Travis Japan''] env_one =
     Inr [(ascii ''Travis Japan'', event_101, ticket_1225)]"
  by (simp add: observed_def env_one_def get_event_urls_101 tickets_event_page)

lemma observed_first_artist:
  "observed ascii_digit [ascii ''Travis Japan''] env_second_artist_fails =
     Inr [(ascii ''Travis Japan'', event_101, ticket_1225)]"
  by (simp add: observed_def env_second_artist_fails_def get_event_urls_101 tickets_event_page)

lemma observed_second_artist_fails:
  "observed ascii_digit [ascii ''Travis Japan'', ascii ''SixTONES''] env_second_artist_fails =
     Inl timeout_error"
  by (simp add: observed_def env_second_artist_fails_def get_event_urls_101 tickets_event_page
      get_event_urls_fails)

section \<open>The deduplication key\<close>

lemma split_at_bar:
  "c \<notin> set a \<Longrightarrow> c \<notin> set b \<Longrightarrow> a @ c # x = b @ c # y \<Longrightarrow> a = b \<and> x = y"
proof (induction a arbitrary: b)
  case Nil
  then show ?case by (cases b) auto
next
  case (Cons z a)
  then show ?case by (cases b) auto
qed

section \<open>Pruning\<close>

lemma start_run_tidy: "tidy (start_run file)"
  by (simp add: tidy_def start_run_def)

lemma prune_iff: "prune now m k = Some ts \<longleftrightarrow> m k = Some ts \<and> now - 30 * 86400 < ts"
  by (auto simp: prune_def Let_def split: option.splits)

lemma notified_saved:
  "notified (load_state (save_state now (s\<lparr>notified := m\<rparr>))) = m"
  by (simp add: load_state_def save_state_def)

lemma run_check_completes:
  assumes "observed nd A e = Inr obs"
  shows "cr_raised (run_check nd A e file) = None"
    and "cr_returned (run_check nd A e file) = new_findings (record_all e obs (start_run file))"
    and "cr_notifications (run_check nd A e file) = new_findings (record_all e obs (start_run file))"
    and "notified (load_state (cr_file (run_check nd A e file))) =
           prune (clock e (clk_i (record_all e obs (start_run file))))
             (r_notified (record_all e obs (start_run file)))"
  using assms by (simp_all add: run_check_eq Let_def notified_saved)

lemma run_check_raises:
  assumes "observed nd A e = Inl x"
  shows "cr_raised (run_check nd A e file) = Some x"
    and "cr_returned (run_check nd A e file) = []"
    and "cr_notifications (run_check nd A e file) = []"
    and "cr_file (run_check nd A e file) = file"
  using assms by (simp_all add: run_check_eq)

section \<open>Deduplication across cycles\<close>

lemma cycle_findings:
  assumes "observed nd A e = Inr obs"
  shows "distinct (map finding_key (cr_returned (run_check nd A e fl)))"
    and "set (map finding_key (cr_returned (run_check nd A e fl))) =
           obs_key ` set obs - dom (notified (load_state fl))"
proof -
  note wf = observed_url [OF assms]
  from tidy_record_all [OF wf start_run_tidy, of e fl]
  show "distinct (map finding_key (cr_returned (run_check nd A e fl)))"
    by (simp add: run_check_completes(2) [OF assms] tidy_def)
  from keys_record_all [OF wf, of e "start_run fl"]
  show "set (map finding_key (cr_returned (run_check nd A e fl))) =
           obs_key ` set obs - dom (notified (load_state fl))"
    by (simp add: run_check_completes(2) [OF assms] start_run_def)
qed

lemma cycle_keeps:
  assumes k: "notified (load_state fl) k = Some ts"
  shows "(\<forall>f \<in> set (cr_notifications (run_check nd A e fl)). finding_key f \<noteq> k)
    \<and> (notified (load_state (cr_file (run_check nd A e fl))) k = Some ts
       \<or> (notified (load_state (cr_file (run_check nd A e fl))) k = None
          \<and> cr_raised (run_check nd A e fl) = None
          \<and> (\<exists>n. ts \<le> clock e n - 30 * 86400)))"
proof (cases "observed nd A e")
  case (Inl x)
  with k show ?thesis by (simp add: run_check_raises)
next
  case (Inr obs)
  define r where "r = record_all e obs (start_run fl)"
  from k have kd: "k \<in> dom (notified (load_state fl))" by auto
  have "k \<notin> set (map finding_key (cr_returned (run_check nd A e fl)))"
    unfolding cycle_findings(2) [OF Inr] using kd by simp
  then have no: "\<forall>f \<in> set (cr_notifications (run_check nd A e fl)). finding_key f \<noteq> k"
    by (auto simp: run_check_completes(2,3) [OF Inr])
  from k have "r_notified r k = Some ts"
    unfolding r_def by (intro record_all_keep) (simp add: start_run_def)
  then have "notified (load_state (cr_file (run_check nd A e fl))) k =
      (if clock e (clk_i r) - 30 * 86400 < ts then Some ts else None)"
    by (simp add: run_check_completes(4) [OF Inr] r_def [symmetric] prune_def)
  moreover have "\<exists>n. ts \<le> clock e n - 30 * 86400" if "\<not> clock e (clk_i r) - 30 * 86400 < ts"
    using that by (intro exI [of _ "clk_i r"]) simp
  ultimately show ?thesis
    using no run_check_completes(1) [OF Inr, of fl] by (cases "clock e (clk_i r) - 30 * 86400 < ts") simp_all
qed



section \<open>Failures inside a cycle and the loop of \<open>main\<close>\<close>

lemma new_findings_one:
  "new_findings (record_all e [(ascii ''Travis Japan'', event_101, ticket_1225)] (start_run None))
     = [finding_101]"
  by (simp add: notify_if_new_def start_run_def load_state_def event_101_def ticket_1225_def
      finding_101_def Let_def)

text \<open>
  C3 on the code. A navigation that fails on an event page is skipped and the cycle goes
  on, but one that fails on an artist page is not caught inside \<open>run_check\<close>. With the
  artists Travis Japan and SixTONES, where the first artist's page and event render and
  show a listing, and the navigation to the second artist's page times out, the cycle
  raises: it returns and notifies nothing and writes no state file. The same cycle over
  the first artist alone returns the finding.
\<close>

theorem artist_failure_aborts_cycle:
  "cr_raised (run_check ascii_digit [ascii ''Travis Japan''] env_second_artist_fails None) = None
   \<and> cr_returned (run_check ascii_digit [ascii ''Travis Japan''] env_second_artist_fails None)
       = [finding_101]
   \<and> cr_raised (run_check ascii_digit [ascii ''Travis Japan'', ascii ''SixTONES'']
         env_second_artist_fails None) = Some timeout_error
   \<and> cr_returned (run_check ascii_digit [ascii ''Travis Japan'', ascii ''SixTONES'']
         env_second_artist_fails None) = []
   \<and> cr_notifications (run_check ascii_digit [ascii ''Travis Japan'', ascii ''SixTONES'']
         env_second_artist_fails None) = []
   \<and> cr_file (run_check ascii_digit [ascii ''Travis Japan'', ascii ''SixTONES'']
         env_second_artist_fails None) = None"
proof -
  have "cr_returned (run_check ascii_digit [ascii ''Travis Japan''] env_second_artist_fails None)
       = [finding_101]"
    by (simp only: run_check_completes(2) [OF observed_first_artist] new_findings_one)
  then show ?thesis
    by (simp add: run_check_completes(1) [OF observed_first_artist]
        run_check_raises [OF observed_second_artist_fails])
qed

lemma event_failure_skipped:
  "nav e i = Raises (Exception msg) \<Longrightarrow> events_obs e a (ev # rest) i = events_obs e a rest (Suc i)"
  by simp

lemma main_loop_append:
  "main_loop nd A fl (s1 @ s2) =
     (case main_loop nd A fl s1 of
        (acts, Running, fl') \<Rightarrow>
          (case main_loop nd A fl' s2 of (acts2, st, fl'') \<Rightarrow> (acts @ acts2, st, fl''))
      | other \<Rightarrow> other)"
proof (induction s1 arbitrary: fl)
  case Nil
  show ?case by (simp split: prod.splits)
next
  case (Cons x s1)
  obtain e sl where x: "x = (e, sl)" by (cases x)
  define res where "res = run_check nd A e fl"
  obtain acts1 st1 fl1 where r1: "main_loop nd A (cr_file res) s1 = (acts1, st1, fl1)"
    by (cases "main_loop nd A (cr_file res) s1")
  obtain acts2 st2 fl2 where r2: "main_loop nd A fl1 s2 = (acts2, st2, fl2)"
    by (cases "main_loop nd A fl1 s2")
  have ih: "main_loop nd A (cr_file res) (s1 @ s2) =
      (case st1 of Running \<Rightarrow> (acts1 @ acts2, st2, fl2) | _ \<Rightarrow> (acts1, st1, fl1))"
    using Cons.IH [of "cr_file res"] r1 r2 by (simp split: status.splits)
  show ?case
  proof (cases "cr_raised res")
    case None
    then show ?thesis
      unfolding x using ih r1 r2
      by (cases sl; cases st1) (simp_all add: res_def [symmetric] Let_def)
  next
    case (Some y)
    then show ?thesis
      unfolding x using ih r1 r2
      by (cases y; cases sl; cases st1) (simp_all add: res_def [symmetric] Let_def)
  qed
qed

lemma main_loop_running_iff:
  "fst (snd (main_loop nd A fl script)) = Running \<longleftrightarrow>
     (\<forall>x \<in> set script. snd x = Slept)
     \<and> (\<forall>res. Ran res \<in> set (fst (main_loop nd A fl script)) \<longrightarrow>
           cr_raised res \<noteq> Some KeyboardInterrupt \<and> cr_raised res \<noteq> Some CancelledError)"
proof (induction script arbitrary: fl)
  case Nil
  show ?case by simp
next
  case (Cons x script)
  obtain e sl where x: "x = (e, sl)" by (cases x)
  define res where "res = run_check nd A e fl"
  obtain acts1 st1 fl1 where r1: "main_loop nd A (cr_file res) script = (acts1, st1, fl1)"
    by (cases "main_loop nd A (cr_file res) script")
  note ih = Cons.IH [of "cr_file res", unfolded r1, simplified]
  show ?case
  proof (cases "cr_raised res")
    case None
    then show ?thesis
      unfolding x using ih r1
      by (cases sl) (auto simp: res_def [symmetric] Let_def)
  next
    case (Some y)
    then show ?thesis
      unfolding x using ih r1
      by (cases y; cases sl) (auto simp: res_def [symmetric] Let_def)
  qed
qed

text \<open>
  C9. In the loop of the continuous mode, when the loop is still running after some
  iterations and the next cycle raises an exception (an instance of \<open>Exception\<close>), the
  loop logs the error, prints the traceback, logs the next check and sleeps, in this
  order and right after the cycle; and when the sleep is not interrupted the loop goes
  on with the next cycle. The loop is left only by an interrupt: it is still running
  after any number of iterations if and only if no sleep was interrupted and no cycle
  raised \<open>KeyboardInterrupt\<close> or a cancellation.
\<close>

theorem cycle_error_keeps_loop_running:
  "(main_loop nd A fl before = (acts, Running, fl')
      \<and> cr_raised (run_check nd A e fl') = Some (Exception msg) \<longrightarrow>
      (\<exists>rest st fl''.
         main_loop nd A fl (before @ (e, sl) # script) =
           (acts @ [Ran (run_check nd A e fl'), LogError msg, PrintTraceback, LogNextCheck, Sleep]
              @ rest, st, fl'')
         \<and> (sl = Slept \<longrightarrow>
               (rest, st, fl'') = main_loop nd A (cr_file (run_check nd A e fl')) script)))
   \<and> (fst (snd (main_loop nd A fl script)) = Running \<longleftrightarrow>
        (\<forall>x \<in> set script. snd x = Slept)
        \<and> (\<forall>res. Ran res \<in> set (fst (main_loop nd A fl script)) \<longrightarrow>
              cr_raised res \<noteq> Some KeyboardInterrupt \<and> cr_raised res \<noteq> Some CancelledError))"
proof -
  have part1: "\<exists>rest st fl''.
         main_loop nd A fl (before @ (e, sl) # script) =
           (acts @ [Ran (run_check nd A e fl'), LogError msg, PrintTraceback, LogNextCheck, Sleep]
              @ rest, st, fl'')
         \<and> (sl = Slept \<longrightarrow>
               (rest, st, fl'') = main_loop nd A (cr_file (run_check nd A e fl')) script)"
    if b: "main_loop nd A fl before = (acts, Running, fl')"
      and r: "cr_raised (run_check nd A e fl') = Some (Exception msg)"
  proof -
    obtain acts1 st1 fl1
      where r1: "main_loop nd A (cr_file (run_check nd A e fl')) script = (acts1, st1, fl1)"
      by (cases "main_loop nd A (cr_file (run_check nd A e fl')) script")
    show ?thesis
      using b r r1 by (cases sl) (simp_all add: main_loop_append Let_def)
  qed
  from part1 main_loop_running_iff [of nd A fl script] show ?thesis by blast
qed

theorem cycle_error_keeps_loop_running_witness:
  "main_loop ascii_digit [ascii ''Travis Japan'', ascii ''SixTONES''] None [] = ([], Running, None)
   \<and> cr_raised (run_check ascii_digit [ascii ''Travis Japan'', ascii ''SixTONES'']
        env_second_artist_fails None) = Some (Exception (ascii ''Timeout 30000ms exceeded''))
   \<and> main_loop ascii_digit [ascii ''Travis Japan'', ascii ''SixTONES''] None
        [(env_second_artist_fails, Slept)] =
       ([Ran (run_check ascii_digit [ascii ''Travis Japan'', ascii ''SixTONES'']
               env_second_artist_fails None),
         LogError (ascii ''Timeout 30000ms exceeded''), PrintTraceback, LogNextCheck, Sleep],
        Running, None)"
proof -
  have b: "main_loop ascii_digit [ascii ''Travis Japan'', ascii ''SixTONES''] None []
      = ([], Running, None)"
    by simp
  have r: "cr_raised (run_check ascii_digit [ascii ''Travis Japan'', ascii ''SixTONES'']
        env_second_artist_fails None) = Some (Exception (ascii ''Timeout 30000ms exceeded''))"
    by (simp only: run_check_raises(1) [OF observed_second_artist_fails] timeout_error_def)
  have f: "cr_file (run_check ascii_digit [ascii ''Travis Japan'', ascii ''SixTONES'']
        env_second_artist_fails None) = None"
    by (simp only: run_check_raises(4) [OF observed_second_artist_fails])
  from cycle_error_keeps_loop_running
    [of ascii_digit "[ascii ''Travis Japan'', ascii ''SixTONES'']" None "[]" "[]" None
        env_second_artist_fails "ascii ''Timeout 30000ms exceeded''" Slept "[]"]
    b r
  obtain rest st fl'' where
    m: "main_loop ascii_digit [ascii ''Travis Japan'', ascii ''SixTONES''] None
          ([] @ [(env_second_artist_fails, Slept)]) =
        ([] @ [Ran (run_check ascii_digit [ascii ''Travis Japan'', ascii ''SixTONES'']
               env_second_artist_fails None),
         LogError (ascii ''Timeout 30000ms exceeded''), PrintTraceback, LogNextCheck, Sleep] @ rest,
         st, fl'')"
    and n: "(rest, st, fl'') = main_loop ascii_digit [ascii ''Travis Japan'', ascii ''SixTONES'']
        (cr_file (run_check ascii_digit [ascii ''Travis Japan'', ascii ''SixTONES'']
        env_second_artist_fails None)) []"
    by blast
  from n have "rest = [] \<and> st = Running \<and> fl'' = None"
    unfolding f by simp
  with m b r show ?thesis by simp
qed

section \<open>Properties of the listing extractor\<close>

lemma links_loop_paths:
  "map path (links_loop nd aid ls seen evs) =
     map path evs @ uniq (filter (\<lambda>h. href_matches nd aid h \<and> h \<notin> seen) (map href_or_empty ls))"
proof (induction ls arbitrary: seen evs)
  case Nil
  show ?case by simp
next
  case (Cons l ls)
  show ?case
    by (simp add: Cons.IH event_of_def conj_ac)
qed

lemma links_loop_origin:
  "ev \<in> set (links_loop nd aid ls seen evs) \<Longrightarrow>
   ev \<in> set evs \<or>
   (href_matches nd aid (path ev) \<and> path ev \<notin> seen
    \<and> (\<exists>before l after. ls = before @ l # after \<and> ev = event_of l
          \<and> path ev \<notin> set (map href_or_empty before)))"
proof (induction ls arbitrary: seen evs)
  case Nil
  then show ?case by simp
next
  case (Cons l ls)
  define h where "h = href_or_empty l"
  have ph: "path (event_of l) = h"
    by (simp add: event_of_def h_def)
  show ?case
  proof (cases "href_matches nd aid h \<and> h \<notin> seen")
    case True
    with Cons.prems have "ev \<in> set (links_loop nd aid ls (insert h seen) (evs @ [event_of l]))"
      by (simp add: h_def)
    from Cons.IH [OF this]
    consider "ev \<in> set evs" | "ev = event_of l"
      | "href_matches nd aid (path ev) \<and> path ev \<notin> insert h seen
         \<and> (\<exists>before l' after. ls = before @ l' # after \<and> ev = event_of l'
              \<and> path ev \<notin> set (map href_or_empty before))"
      by auto
    then show ?thesis
    proof cases
      case 1
      then show ?thesis by simp
    next
      case 2
      with True ph have "l # ls = [] @ l # ls \<and> ev = event_of l
          \<and> path ev \<notin> set (map href_or_empty [])" by simp
      with 2 True ph show ?thesis by blast
    next
      case 3
      then obtain before l' after where d: "ls = before @ l' # after" "ev = event_of l'"
        "path ev \<notin> set (map href_or_empty before)" by blast
      from 3 have ne: "path ev \<noteq> h" by simp
      from d ne have "l # ls = (l # before) @ l' # after \<and> ev = event_of l'
          \<and> path ev \<notin> set (map href_or_empty (l # before))"
        by (simp add: h_def)
      with 3 show ?thesis by blast
    qed
  next
    case False
    with Cons.prems have "ev \<in> set (links_loop nd aid ls seen evs)"
      by (auto simp: h_def)
    from Cons.IH [OF this]
    consider "ev \<in> set evs"
      | "href_matches nd aid (path ev) \<and> path ev \<notin> seen
         \<and> (\<exists>before l' after. ls = before @ l' # after \<and> ev = event_of l'
              \<and> path ev \<notin> set (map href_or_empty before))"
      by auto
    then show ?thesis
    proof cases
      case 1
      then show ?thesis by simp
    next
      case 2
      then obtain before l' after where d: "ls = before @ l' # after" "ev = event_of l'"
        "path ev \<notin> set (map href_or_empty before)" by blast
      from 2 False have ne: "path ev \<noteq> h" by auto
      from d ne have "l # ls = (l # before) @ l' # after \<and> ev = event_of l'
          \<and> path ev \<notin> set (map href_or_empty (l # before))"
        by (simp add: h_def)
      with 2 show ?thesis by blast
    qed
  qed
qed

lemma artist_id_nonzero: "map_of ARTIST_IDS a = Some aid \<Longrightarrow> aid \<noteq> 0"
  by (auto simp: ARTIST_IDS_def split: if_splits)

section \<open>At most one notification for a key\<close>




lemma cycle_keys_raises: "cr_raised (run_check nd A e fl) \<noteq> None \<Longrightarrow> cycle_keys (run_check nd A e fl) = {}"
  by (cases "observed nd A e") (simp_all add: run_check_raises run_check_completes cycle_keys_def)

lemma cycle_keeps_keys:
  assumes "notified (load_state fl) k = Some ts"
  shows "k \<notin> cycle_keys (run_check nd A e fl)
    \<and> (saved (run_check nd A e fl) k = Some ts
       \<or> (saved (run_check nd A e fl) k = None
          \<and> cr_raised (run_check nd A e fl) = None
          \<and> (\<exists>n. ts \<le> clock e n - 30 * 86400)))"
  using cycle_keeps [OF assms, of nd A e] by (auto simp: cycle_keys_def saved_def)



lemma length_run_cycles [simp]: "length (run_cycles nd A fl es) = length es"
  by (induction es arbitrary: fl) (simp_all add: Let_def)










section \<open>Keys of different listings\<close>

text \<open>
  The separator keeps the three fields apart as long as the first two do not contain it:
  two triples whose paths and dates are free of \<open>|\<close> (U+007C) have equal keys if and
  only if they are equal.
\<close>

lemma dedup_key_injective:
  assumes "0x7C \<notin> set p1" and "0x7C \<notin> set d1" and "0x7C \<notin> set p2" and "0x7C \<notin> set d2"
  shows "dedup_key p1 d1 v1 = dedup_key p2 d2 v2 \<longleftrightarrow> (p1, d1, v1) = (p2, d2, v2)"
proof
  assume eq: "dedup_key p1 d1 v1 = dedup_key p2 d2 v2"
  then have "p1 @ 0x7C # (d1 @ 0x7C # v1) = p2 @ 0x7C # (d2 @ 0x7C # v2)"
    by (simp add: dedup_key_def)
  from split_at_bar [OF assms(1) assms(3) this]
  have p: "p1 = p2" and rest: "d1 @ 0x7C # v1 = d2 @ 0x7C # v2" by simp_all
  from split_at_bar [OF assms(2) assms(4) rest] p
  show "(p1, d1, v1) = (p2, d2, v2)" by simp
next
  assume "(p1, d1, v1) = (p2, d2, v2)"
  then show "dedup_key p1 d1 v1 = dedup_key p2 d2 v2" by simp
qed

lemma collision_keys:
  "dedup_key (path event_101) (date ticket_evening) (venue ticket_evening)
     = dedup_key (path event_101) (date ticket_annex) (venue ticket_annex)"
  by (simp add: dedup_key_def ticket_evening_def ticket_annex_def ascii_def)

text \<open>
  C5 on the code. The key is the plain concatenation of path, date and venue with the
  separator \<open>|\<close>, and date and venue are page text that may contain the separator. Two
  different listings of one event, (date \<open>12/25|18:00\<close>, venue \<open>Hall A\<close>) and
  (date \<open>12/25\<close>, venue \<open>18:00|Hall A\<close>), get the same key, and the loop over the
  tickets of the event notifies the first of them only.
\<close>

theorem dedup_key_collision:
  "(ascii ''/events/artist/38/101'', ascii ''12/25|18:00'', ascii ''Hall A'')
     \<noteq> (ascii ''/events/artist/38/101'', ascii ''12/25'', ascii ''18:00|Hall A'')
   \<and> dedup_key (ascii ''/events/artist/38/101'') (ascii ''12/25|18:00'') (ascii ''Hall A'')
     = dedup_key (ascii ''/events/artist/38/101'') (ascii ''12/25'') (ascii ''18:00|Hall A'')
   \<and> (date ticket_evening, venue ticket_evening) \<noteq> (date ticket_annex, venue ticket_annex)
   \<and> map f_venue (new_findings (tickets_loop env_one (ascii ''Travis Japan'') event_101
         [ticket_evening, ticket_annex] (start_run None))) = [ascii ''Hall A'']"
proof -
  have k: "(ascii ''/events/artist/38/101'', ascii ''12/25|18:00'', ascii ''Hall A'')
     \<noteq> (ascii ''/events/artist/38/101'', ascii ''12/25'', ascii ''18:00|Hall A'')
   \<and> dedup_key (ascii ''/events/artist/38/101'') (ascii ''12/25|18:00'') (ascii ''Hall A'')
     = dedup_key (ascii ''/events/artist/38/101'') (ascii ''12/25'') (ascii ''18:00|Hall A'')"
    by (simp add: dedup_key_def ascii_eq_iff) (simp add: ascii_def)
  have d: "(date ticket_evening, venue ticket_evening) \<noteq> (date ticket_annex, venue ticket_annex)"
    by (simp add: ticket_evening_def ticket_annex_def ascii_eq_iff)
  have l: "map f_venue (new_findings (tickets_loop env_one (ascii ''Travis Japan'') event_101
         [ticket_evening, ticket_annex] (start_run None))) = [ascii ''Hall A'']"
    using collision_keys
    by (simp add: notify_if_new_def start_run_def load_state_def Let_def)
       (simp add: ticket_evening_def)
  from k d l show ?thesis by simp
qed

section \<open>The pruning pass and the first cycle\<close>

text \<open>
  C4, as the code has it. When a cycle completes, the entries of the state file it
  writes are exactly the entries that the notified mapping held after the loops and
  whose timestamp is later than the time of the pruning pass minus 30 * 86400 seconds:
  the pass removes the entries that are 30 days old or older. An entry timestamped 30
  days and one second before that time is removed, one timestamped 30 days less one
  second before it is kept, and one timestamped exactly 30 days before it is removed.
\<close>

theorem prune_boundary:
  assumes "observed nd A e = Inr obs"
  shows "let r = record_all e obs (start_run fl);
             now = clock e (clk_i r);
             saved = notified (load_state (cr_file (run_check nd A e fl)))
         in (\<forall>k ts. saved k = Some ts \<longleftrightarrow> r_notified r k = Some ts \<and> now - 30 * 86400 < ts)
          \<and> (\<forall>k. r_notified r k = Some (now - 30 * 86400 - 1) \<longrightarrow> saved k = None)
          \<and> (\<forall>k. r_notified r k = Some (now - 30 * 86400 + 1) \<longrightarrow>
                 saved k = Some (now - 30 * 86400 + 1))
          \<and> (\<forall>k ts. r_notified r k = Some ts \<and> ts \<le> now - 30 * 86400 \<longrightarrow> saved k = None)
          \<and> (\<forall>k. r_notified r k = None \<longrightarrow> saved k = None)"
proof -
  define r where "r = record_all e obs (start_run fl)"
  define now where "now = clock e (clk_i r)"
  define saved where "saved = notified (load_state (cr_file (run_check nd A e fl)))"
  have s: "saved = prune now (r_notified r)"
    unfolding saved_def now_def r_def by (rule run_check_completes(4) [OF assms])
  have a: "saved k = Some ts \<longleftrightarrow> r_notified r k = Some ts \<and> now - 30 * 86400 < ts" for k ts
    unfolding s by (rule prune_iff)
  have b: "saved k = None" if "r_notified r k = Some (now - 30 * 86400 - 1)" for k
    unfolding s using that by (simp add: prune_def)
  have c: "saved k = Some (now - 30 * 86400 + 1)"
    if "r_notified r k = Some (now - 30 * 86400 + 1)" for k
    unfolding s using that by (simp add: prune_def)
  have d: "\<forall>k ts. r_notified r k = Some ts \<and> ts \<le> now - 30 * 86400 \<longrightarrow> saved k = None"
    unfolding s by (simp add: prune_def)
  have e: "saved k = None" if "r_notified r k = None" for k
    unfolding s using that by (simp add: prune_def)
  from a b c d e show ?thesis
    unfolding r_def [symmetric] Let_def now_def [symmetric] saved_def [symmetric]
    by (simp add: r_def [symmetric] now_def [symmetric] saved_def [symmetric])
qed

theorem prune_boundary_witness:
  "observed ascii_digit [ascii ''Travis Japan''] env_one =
     Inr [(ascii ''Travis Japan'', event_101, ticket_1225)]
   \<and> notified (load_state file_boundary) (ascii ''a'') = Some (5000000 - 30 * 86400 - 1)
   \<and> notified (load_state file_boundary) (ascii ''b'') = Some (5000000 - 30 * 86400 + 1)
   \<and> notified (load_state (cr_file (run_check ascii_digit [ascii ''Travis Japan''] env_one
        file_boundary))) (ascii ''a'') = None
   \<and> notified (load_state (cr_file (run_check ascii_digit [ascii ''Travis Japan''] env_one
        file_boundary))) (ascii ''b'') = Some (5000000 - 30 * 86400 + 1)"
proof -
  define r where
    "r = record_all env_one [(ascii ''Travis Japan'', event_101, ticket_1225)] (start_run file_boundary)"
  have now: "clock env_one n = 5000000" for n
    by (simp add: env_one_def)
  have a0: "notified (load_state file_boundary) (ascii ''a'') = Some (5000000 - 30 * 86400 - 1)"
    and b0: "notified (load_state file_boundary) (ascii ''b'') = Some (5000000 - 30 * 86400 + 1)"
    by (simp_all add: load_state_def file_boundary_def ascii_eq_iff)
  from a0 have a: "r_notified r (ascii ''a'') = Some (5000000 - 30 * 86400 - 1)"
    unfolding r_def by (intro record_all_keep) (simp add: start_run_def)
  from b0 have b: "r_notified r (ascii ''b'') = Some (5000000 - 30 * 86400 + 1)"
    unfolding r_def by (intro record_all_keep) (simp add: start_run_def)
  from prune_boundary [OF observed_one, of file_boundary] a b a0 b0 observed_one
  show ?thesis
    unfolding Let_def now r_def [symmetric] by blast
qed

text \<open>
  The claim C4 as stated fails at the boundary: an entry that is exactly 30 * 86400
  seconds old at the pruning pass is not older than the retention window, and it is
  removed.
\<close>

theorem prune_exact_boundary:
  "notified (load_state file_exact) (ascii ''c'') = Some (5000000 - 30 * 86400)
   \<and> cr_raised (run_check ascii_digit [ascii ''Travis Japan''] env_one file_exact) = None
   \<and> clock env_one (clk_i (record_all env_one [(ascii ''Travis Japan'', event_101, ticket_1225)]
        (start_run file_exact))) = 5000000
   \<and> (5000000::real) - (5000000 - 30 * 86400) = 30 * 86400
   \<and> notified (load_state (cr_file (run_check ascii_digit [ascii ''Travis Japan''] env_one
        file_exact))) (ascii ''c'') = None"
proof -
  define r where
    "r = record_all env_one [(ascii ''Travis Japan'', event_101, ticket_1225)] (start_run file_exact)"
  have now: "clock env_one n = 5000000" for n
    by (simp add: env_one_def)
  have c0: "notified (load_state file_exact) (ascii ''c'') = Some (5000000 - 30 * 86400)"
    by (simp add: load_state_def file_exact_def)
  then have c: "r_notified r (ascii ''c'') = Some (5000000 - 30 * 86400)"
    unfolding r_def by (intro record_all_keep) (simp add: start_run_def)
  have "notified (load_state (cr_file (run_check ascii_digit [ascii ''Travis Japan''] env_one
        file_exact))) (ascii ''c'') = None"
    unfolding run_check_completes(4) [OF observed_one] r_def [symmetric]
    by (simp add: prune_def now c)
  with c0 run_check_completes(1) [OF observed_one, of file_exact] show ?thesis
    by (simp add: now)
qed

lemma observed_interrupted:
  "observed ascii_digit [ascii ''Travis Japan'', ascii ''SixTONES''] env_interrupted =
     Inl KeyboardInterrupt"
  by (simp add: observed_def env_interrupted_def get_event_urls_101 tickets_event_page
      get_event_urls_fails)

lemma completes_iff:
  "cr_raised (run_check nd A e fl) = None \<longleftrightarrow> (\<exists>obs. observed nd A e = Inr obs)"
  by (cases "observed nd A e") (simp_all add: run_check_raises run_check_completes)

text \<open>
  C10, as the code has it. Without a state file, \<open>load_state\<close> gives a state with an
  empty notified mapping and nothing else. A first cycle that runs to its end (that is,
  \<open>run_check\<close> does not raise) then returns, and notifies, exactly one finding for each
  distinct key it observed: every observed key is new.
\<close>

theorem first_cycle_all_new:
  "load_state None = \<lparr>notified = Map.empty, last_check = None\<rparr>
   \<and> (observed nd A e = Inr obs \<longrightarrow>
        cr_raised (run_check nd A e None) = None
        \<and> set (map finding_key (cr_returned (run_check nd A e None))) = obs_key ` set obs
        \<and> distinct (map finding_key (cr_returned (run_check nd A e None)))
        \<and> cr_notifications (run_check nd A e None) = cr_returned (run_check nd A e None))
   \<and> (cr_raised (run_check nd A e None) = None \<longrightarrow>
        (\<exists>obs. observed nd A e = Inr obs
           \<and> set (map finding_key (cr_returned (run_check nd A e None))) = obs_key ` set obs
           \<and> distinct (map finding_key (cr_returned (run_check nd A e None)))
           \<and> cr_notifications (run_check nd A e None) = cr_returned (run_check nd A e None)))"
proof -
  have l: "load_state None = \<lparr>notified = Map.empty, last_check = None\<rparr>"
    by (simp add: load_state_def)
  have m: "cr_raised (run_check nd A e None) = None
        \<and> set (map finding_key (cr_returned (run_check nd A e None))) = obs_key ` set obs
        \<and> distinct (map finding_key (cr_returned (run_check nd A e None)))
        \<and> cr_notifications (run_check nd A e None) = cr_returned (run_check nd A e None)"
    if o: "observed nd A e = Inr obs" for obs
    using cycle_findings [OF o, of None] run_check_completes(1,2,3) [OF o, of None]
    by (simp add: l)
  have "\<exists>obs. observed nd A e = Inr obs
           \<and> set (map finding_key (cr_returned (run_check nd A e None))) = obs_key ` set obs
           \<and> distinct (map finding_key (cr_returned (run_check nd A e None)))
           \<and> cr_notifications (run_check nd A e None) = cr_returned (run_check nd A e None)"
    if "cr_raised (run_check nd A e None) = None"
  proof -
    from that obtain obs where o: "observed nd A e = Inr obs"
      unfolding completes_iff by blast
    with m [OF o] show ?thesis by blast
  qed
  with l m show ?thesis by blast
qed

theorem first_cycle_all_new_witness:
  "observed ascii_digit [ascii ''Travis Japan''] env_one =
     Inr [(ascii ''Travis Japan'', event_101, ticket_1225)]
   \<and> cr_raised (run_check ascii_digit [ascii ''Travis Japan''] env_one None) = None
   \<and> set (map finding_key (cr_returned (run_check ascii_digit [ascii ''Travis Japan''] env_one None)))
       = {key_101}"
  using first_cycle_all_new [of ascii_digit "[ascii ''Travis Japan'']" env_one
      "[(ascii ''Travis Japan'', event_101, ticket_1225)]"] observed_one
  by (simp add: key_101_eq)

text \<open>
  The claim C10 as stated fails for a first cycle that does not run to its end: the
  listing of the first artist's event is detected, an interrupt arrives during the next
  navigation, and the cycle raises without returning or notifying a finding.
\<close>

theorem first_cycle_interrupted:
  "get_event_urls ascii_digit env_interrupted 0 (ascii ''Travis Japan'') = (Inr [event_101], 1)
   \<and> events_obs env_interrupted (ascii ''Travis Japan'') [event_101] 1
       = Inr ([(ascii ''Travis Japan'', event_101, ticket_1225)], 2)
   \<and> obs_key (ascii ''Travis Japan'', event_101, ticket_1225) = key_101
   \<and> cr_raised (run_check ascii_digit [ascii ''Travis Japan'', ascii ''SixTONES'']
         env_interrupted None) = Some KeyboardInterrupt
   \<and> cr_returned (run_check ascii_digit [ascii ''Travis Japan'', ascii ''SixTONES'']
         env_interrupted None) = []
   \<and> cr_notifications (run_check ascii_digit [ascii ''Travis Japan'', ascii ''SixTONES'']
         env_interrupted None) = []"
proof -
  have g: "get_event_urls ascii_digit env_interrupted 0 (ascii ''Travis Japan'')
      = (Inr [event_101], 1)"
    using get_event_urls_101 [of env_interrupted 0] by (simp add: env_interrupted_def)
  have o: "events_obs env_interrupted (ascii ''Travis Japan'') [event_101] 1
       = Inr ([(ascii ''Travis Japan'', event_101, ticket_1225)], 2)"
    by (simp add: env_interrupted_def tickets_event_page numeral_2_eq_2)
  from g o key_101_eq run_check_raises(1,2,3) [OF observed_interrupted, of None]
  show ?thesis by simp
qed

section \<open>The descriptors of the listing extractor\<close>

lemma set_uniq: "set (uniq xs) = set xs"
  by (induction xs rule: uniq.induct) auto

lemma find_other: "href_or_empty l \<noteq> h \<Longrightarrow>
  find (\<lambda>l'. href_or_empty l' = h) (l # ls) = find (\<lambda>l'. href_or_empty l' = h) ls"
  by simp

lemma links_loop_eq:
  "links_loop nd aid ls seen evs =
     evs @ map (\<lambda>h. event_of (the (find (\<lambda>l. href_or_empty l = h) ls)))
             (uniq (filter (\<lambda>h. href_matches nd aid h \<and> h \<notin> seen) (map href_or_empty ls)))"
proof (induction ls arbitrary: seen evs)
  case Nil
  show ?case by simp
next
  case (Cons l ls)
  let ?h = "href_or_empty l"
  let ?F = "\<lambda>ls h'. event_of (the (find (\<lambda>l'. href_or_empty l' = h') ls))"
  show ?case
  proof (cases "href_matches nd aid ?h \<and> ?h \<notin> seen")
    case True
    let ?rest = "uniq (filter (\<lambda>x. href_matches nd aid x \<and> x \<notin> insert ?h seen)
                   (map href_or_empty ls))"
    have f: "filter (\<lambda>y. y \<noteq> ?h)
          (filter (\<lambda>x. href_matches nd aid x \<and> x \<notin> seen) (map href_or_empty ls))
        = filter (\<lambda>x. href_matches nd aid x \<and> x \<notin> insert ?h seen) (map href_or_empty ls)"
      by (induction ls) auto
    have r1: "uniq (filter (\<lambda>x. href_matches nd aid x \<and> x \<notin> seen) (map href_or_empty (l # ls)))
        = ?h # ?rest"
    proof -
      have "filter (\<lambda>x. href_matches nd aid x \<and> x \<notin> seen) (map href_or_empty (l # ls))
          = ?h # filter (\<lambda>x. href_matches nd aid x \<and> x \<notin> seen) (map href_or_empty ls)"
        using True by simp
      then have "uniq (filter (\<lambda>x. href_matches nd aid x \<and> x \<notin> seen) (map href_or_empty (l # ls)))
          = ?h # uniq (filter (\<lambda>y. y \<noteq> ?h)
              (filter (\<lambda>x. href_matches nd aid x \<and> x \<notin> seen) (map href_or_empty ls)))"
        by (simp only: uniq.simps)
      then show ?thesis by (simp only: f)
    qed
    have m: "map (?F (l # ls)) ?rest = map (?F ls) ?rest"
      by (rule map_cong) (auto simp: set_uniq)
    have r2: "?F (l # ls) ?h = event_of l"
      by simp
    have "links_loop nd aid (l # ls) seen evs =
        links_loop nd aid ls (insert ?h seen) (evs @ [event_of l])"
      using True by simp
    also have "\<dots> = evs @ event_of l # map (?F ls) ?rest"
      by (simp add: Cons.IH)
    also have "\<dots> = evs @ map (?F (l # ls)) (?h # ?rest)"
      by (simp only: list.map r2 m)
    finally show ?thesis
      by (simp only: r1)
  next
    case False
    let ?rest = "uniq (filter (\<lambda>x. href_matches nd aid x \<and> x \<notin> seen) (map href_or_empty ls))"
    have r1: "uniq (filter (\<lambda>x. href_matches nd aid x \<and> x \<notin> seen) (map href_or_empty (l # ls)))
        = ?rest"
      using False by auto
    have m: "map (?F (l # ls)) ?rest = map (?F ls) ?rest"
      using False by (intro map_cong) (auto simp: set_uniq)
    have "links_loop nd aid (l # ls) seen evs = links_loop nd aid ls seen evs"
      using False by auto
    also have "\<dots> = evs @ map (?F ls) ?rest"
      by (rule Cons.IH)
    also have "\<dots> = evs @ map (?F (l # ls)) ?rest"
      by (simp only: m)
    finally show ?thesis
      by (simp only: r1)
  qed
qed

lemma strip_decomp:
  "\<exists>lead trail. s = lead @ strip s @ trail \<and> (\<forall>c \<in> set lead. is_space c) \<and> (\<forall>c \<in> set trail. is_space c)"
proof -
  define t where "t = dropWhile is_space s"
  have s: "s = takeWhile is_space s @ t"
    by (simp add: t_def)
  have "t = rev (takeWhile is_space (rev t) @ dropWhile is_space (rev t))"
    by (simp only: takeWhile_dropWhile_id rev_rev_ident)
  then have "t = rev (dropWhile is_space (rev t)) @ rev (takeWhile is_space (rev t))"
    by (simp only: rev_append)
  then have t: "t = strip s @ rev (takeWhile is_space (rev t))"
    by (simp only: strip_def t_def)
  have a: "\<forall>c \<in> set (takeWhile is_space s). is_space c"
    by (auto dest: set_takeWhileD)
  have b: "\<forall>c \<in> set (rev (takeWhile is_space (rev t))). is_space c"
    by (auto dest: set_takeWhileD)
  from s t have "s = takeWhile is_space s @ strip s @ rev (takeWhile is_space (rev t))"
    by simp
  with a b show ?thesis by blast
qed

lemma strip_ends:
  assumes "strip s \<noteq> []"
  shows "\<not> is_space (hd (strip s)) \<and> \<not> is_space (last (strip s))"
proof -
  define t where "t = dropWhile is_space s"
  define u where "u = dropWhile is_space (rev t)"
  have st: "strip s = rev u"
    by (simp add: strip_def t_def u_def)
  with assms have u: "u \<noteq> []" by simp
  then have "\<not> is_space (hd u)"
    unfolding u_def by (rule hd_dropWhile)
  with u have l: "\<not> is_space (last (strip s))"
    by (simp add: st last_rev)
  from u have rt: "rev t \<noteq> []" unfolding u_def by auto
  then have tn: "t \<noteq> []" by simp
  then have ht: "\<not> is_space (hd t)"
    unfolding t_def by (rule hd_dropWhile)
  have "t = rev (takeWhile is_space (rev t) @ u)"
    unfolding u_def by (simp only: takeWhile_dropWhile_id rev_rev_ident)
  then have "t = rev u @ rev (takeWhile is_space (rev t))"
    by (simp only: rev_append)
  with u have "hd t = hd (rev u)"
    by (metis hd_append2 rev_is_Nil_conv)
  with ht st have "\<not> is_space (hd (strip s))" by simp
  with l show ?thesis by simp
qed

lemma first_line_decomp:
  "0x0A \<notin> set (first_line s) \<and> (s = first_line s \<or> (\<exists>rest. s = first_line s @ 0x0A # rest))"
proof -
  have a: "0x0A \<notin> set (first_line s)"
    by (auto simp: first_line_def dest: set_takeWhileD)
  define d where "d = dropWhile (\<lambda>c. c \<noteq> 0x0A) s"
  have s: "s = first_line s @ d"
    by (simp add: first_line_def d_def)
  show ?thesis
  proof (cases d)
    case Nil
    with s a show ?thesis by simp
  next
    case (Cons c rest)
    then have "d \<noteq> []" by simp
    then have "\<not> hd d \<noteq> 0x0A"
      unfolding d_def by (rule hd_dropWhile)
    with Cons have "c = 0x0A" by simp
    with s Cons a show ?thesis by auto
  qed
qed

lemma event_of_name:
  "0x0A \<notin> set (name (event_of l))
   \<and> (\<exists>lead body trail. inner_text l = lead @ body @ trail
        \<and> (\<forall>c \<in> set lead. is_space c) \<and> (\<forall>c \<in> set trail. is_space c)
        \<and> (body \<noteq> [] \<longrightarrow> \<not> is_space (hd body) \<and> \<not> is_space (last body))
        \<and> (body = name (event_of l) \<or> (\<exists>rest. body = name (event_of l) @ 0x0A # rest)))"
proof -
  have n: "name (event_of l) = first_line (strip (inner_text l))"
    by (simp add: event_of_def)
  from strip_decomp [of "inner_text l"] obtain lead trail
    where d: "inner_text l = lead @ strip (inner_text l) @ trail"
      "\<forall>c \<in> set lead. is_space c" "\<forall>c \<in> set trail. is_space c"
    by blast
  from strip_ends [of "inner_text l"]
  have e: "strip (inner_text l) \<noteq> [] \<longrightarrow>
      \<not> is_space (hd (strip (inner_text l))) \<and> \<not> is_space (last (strip (inner_text l)))"
    by blast
  from first_line_decomp [of "strip (inner_text l)"]
  have f: "0x0A \<notin> set (name (event_of l))"
    and g: "strip (inner_text l) = name (event_of l)
       \<or> (\<exists>rest. strip (inner_text l) = name (event_of l) @ 0x0A # rest)"
    unfolding n by blast+
  from d e g have "\<exists>lead body trail. inner_text l = lead @ body @ trail
        \<and> (\<forall>c \<in> set lead. is_space c) \<and> (\<forall>c \<in> set trail. is_space c)
        \<and> (body \<noteq> [] \<longrightarrow> \<not> is_space (hd body) \<and> \<not> is_space (last body))
        \<and> (body = name (event_of l) \<or> (\<exists>rest. body = name (event_of l) @ 0x0A # rest))"
    by (intro exI [of _ lead] exI [of _ "strip (inner_text l)"] exI [of _ trail]) simp
  with f show ?thesis by simp
qed

section \<open>The result of the listing extractor\<close>

lemma twice_paths:
  "uniq (filter (href_matches ascii_digit 38) (map href_or_empty (links listing_twice)))
     = [ascii ''/events/artist/38/101'']"
  by (simp add: listing_twice_def first_link_def href_or_empty_def match_101)
     (simp add: href_matches_def digits_38 Let_def ascii_def)

lemma twice_first:
  "find (\<lambda>l. href_or_empty l = ascii ''/events/artist/38/101'') (links listing_twice)
     = Some first_link"
  by (simp add: listing_twice_def first_link_def href_or_empty_def)

lemma first_link_text:
  "inner_text first_link = [0x0A] @ ascii ''Winter Live'' @ [0x0A] @ ascii ''Tokyo Dome ''"
  by (simp add: first_link_def)

lemma first_link_event: "event_of first_link = event_101"
proof -
  have "strip (inner_text first_link) = ascii ''Winter Live'' @ [0x0A] @ ascii ''Tokyo Dome''"
    by (simp add: first_link_def strip_def is_space_def ascii_def)
  then have "first_line (strip (inner_text first_link)) = ascii ''Winter Live''"
    by (simp add: first_line_def ascii_def)
  then show ?thesis
    by (simp add: event_of_def event_101_def href_or_empty_def first_link_def base_101)
qed

text \<open>
  C8, as the code has it. For an artist name that the table \<open>ARTIST_IDS\<close> does not
  resolve, the extractor returns the empty list, without navigating. For a resolved
  artist whose page renders, it returns one descriptor for each distinct href among the
  page's links that matches the pattern for this artist, in the order of their first
  occurrence in the document, and the descriptor is the one of the first link with this
  href. The descriptor of a link has the href as path, the base URL followed by the href
  as url, and as name the first line of the link's visible text after the whitespace
  around the text is stripped: the text is some whitespace, a body that neither starts
  nor ends with whitespace, and some whitespace, and the name has no line break and is
  the whole body or the part of it before its first line break.
\<close>

theorem get_event_urls_result:
  "(map_of ARTIST_IDS artist = None \<longrightarrow> get_event_urls nd e i artist = (Inr [], i))
   \<and> (map_of ARTIST_IDS artist = Some aid \<and> nav e i = Rendered pg \<longrightarrow>
        get_event_urls nd e i artist =
          (Inr (map (\<lambda>h. event_of (the (find (\<lambda>l. href_or_empty l = h) (links pg))))
                  (uniq (filter (href_matches nd aid) (map href_or_empty (links pg))))),
           Suc i))
   \<and> (map_of ARTIST_IDS artist = Some aid \<and> nav e i = Rendered pg \<longrightarrow>
        (\<exists>evs. get_event_urls nd e i artist = (Inr evs, Suc i)
           \<and> map path evs = uniq (filter (href_matches nd aid) (map href_or_empty (links pg)))
           \<and> (\<forall>ev \<in> set evs.
                 \<exists>before l after. links pg = before @ l # after
                   \<and> href_or_empty l = path ev
                   \<and> path ev \<notin> set (map href_or_empty before)
                   \<and> url ev = BASE_URL @ path ev
                   \<and> name ev = first_line (strip (inner_text l)))))
   \<and> path (event_of l) = href_or_empty l
   \<and> url (event_of l) = BASE_URL @ href_or_empty l
   \<and> 0x0A \<notin> set (name (event_of l))
   \<and> (\<exists>lead body trail. inner_text l = lead @ body @ trail
        \<and> (\<forall>c \<in> set lead. is_space c) \<and> (\<forall>c \<in> set trail. is_space c)
        \<and> (body \<noteq> [] \<longrightarrow> \<not> is_space (hd body) \<and> \<not> is_space (last body))
        \<and> (body = name (event_of l) \<or> (\<exists>rest. body = name (event_of l) @ 0x0A # rest)))"
proof -
  have none: "get_event_urls nd e i artist = (Inr [], i)" if "map_of ARTIST_IDS artist = None"
    using that by (simp add: get_event_urls_def)
  have eq: "get_event_urls nd e i artist =
          (Inr (map (\<lambda>h. event_of (the (find (\<lambda>l. href_or_empty l = h) (links pg))))
                  (uniq (filter (href_matches nd aid) (map href_or_empty (links pg))))),
           Suc i)"
    if a: "map_of ARTIST_IDS artist = Some aid" and n: "nav e i = Rendered pg"
    using a n artist_id_nonzero [OF a] links_loop_eq [of nd aid "links pg" "{}" "[]"]
    by (simp add: get_event_urls_def)
  have some: "\<exists>evs. get_event_urls nd e i artist = (Inr evs, Suc i)
           \<and> map path evs = uniq (filter (href_matches nd aid) (map href_or_empty (links pg)))
           \<and> (\<forall>ev \<in> set evs.
                 \<exists>before l after. links pg = before @ l # after
                   \<and> href_or_empty l = path ev
                   \<and> path ev \<notin> set (map href_or_empty before)
                   \<and> url ev = BASE_URL @ path ev
                   \<and> name ev = first_line (strip (inner_text l)))"
    if a: "map_of ARTIST_IDS artist = Some aid" and n: "nav e i = Rendered pg"
  proof -
    define evs where "evs = links_loop nd aid (links pg) {} []"
    from a n artist_id_nonzero [OF a]
    have g: "get_event_urls nd e i artist = (Inr evs, Suc i)"
      by (simp add: get_event_urls_def evs_def)
    have p: "map path evs = uniq (filter (href_matches nd aid) (map href_or_empty (links pg)))"
      unfolding evs_def using links_loop_paths [of nd aid "links pg" "{}" "[]"] by simp
    have o: "\<exists>before l after. links pg = before @ l # after
                   \<and> href_or_empty l = path ev
                   \<and> path ev \<notin> set (map href_or_empty before)
                   \<and> url ev = BASE_URL @ path ev
                   \<and> name ev = first_line (strip (inner_text l))"
      if "ev \<in> set evs" for ev
    proof -
      from links_loop_origin [OF that [unfolded evs_def]]
      obtain before l after where d: "links pg = before @ l # after" "ev = event_of l"
        "path ev \<notin> set (map href_or_empty before)" by auto
      from d(2) have "href_or_empty l = path ev \<and> url ev = BASE_URL @ path ev
          \<and> name ev = first_line (strip (inner_text l))"
        by (simp add: event_of_def)
      with d show ?thesis by blast
    qed
    from g p o show ?thesis by blast
  qed
  have fields: "path (event_of l) = href_or_empty l \<and> url (event_of l) = BASE_URL @ href_or_empty l"
    by (simp add: event_of_def)
  from none eq some fields event_of_name [of l] show ?thesis by blast
qed

theorem get_event_urls_result_witness:
  "map_of ARTIST_IDS (ascii ''Nobody'') = None
   \<and> get_event_urls ascii_digit env_twice 0 (ascii ''Nobody'') = (Inr [], 0)
   \<and> map_of ARTIST_IDS (ascii ''Travis Japan'') = Some 38
   \<and> nav env_twice 0 = Rendered listing_twice
   \<and> get_event_urls ascii_digit env_twice 0 (ascii ''Travis Japan'') = (Inr [event_101], Suc 0)
   \<and> name event_101 = ascii ''Winter Live''
   \<and> 0x0A \<notin> set (name (event_of first_link))"
proof -
  have n: "map_of ARTIST_IDS (ascii ''Nobody'') = None"
    by (simp add: ARTIST_IDS_def ascii_def)
  have a: "map_of ARTIST_IDS (ascii ''Travis Japan'') = Some 38"
    by (simp add: ARTIST_IDS_def)
  have r: "nav env_twice 0 = Rendered listing_twice"
    by (simp add: env_twice_def)
  from get_event_urls_result [of "ascii ''Nobody''" ascii_digit env_twice 0] n
  have u: "get_event_urls ascii_digit env_twice 0 (ascii ''Nobody'') = (Inr [], 0)"
    by blast
  from get_event_urls_result [of "ascii ''Travis Japan''" ascii_digit env_twice 0 38 listing_twice
      first_link] a r
  have g: "get_event_urls ascii_digit env_twice 0 (ascii ''Travis Japan'') =
          (Inr (map (\<lambda>h. event_of (the (find (\<lambda>l. href_or_empty l = h) (links listing_twice))))
                  (uniq (filter (href_matches ascii_digit 38)
                     (map href_or_empty (links listing_twice))))), Suc 0)"
    and nl: "0x0A \<notin> set (name (event_of first_link))"
    by blast+
  from g have "get_event_urls ascii_digit env_twice 0 (ascii ''Travis Japan'')
      = (Inr [event_101], Suc 0)"
    by (simp add: twice_paths twice_first first_link_event)
  with n a r u nl show ?thesis
    by (simp add: event_101_def)
qed

text \<open>
  The claim C8 as stated fails on the name: for a link whose visible text starts with a
  line break, the first line of the text is empty, and the name is the first line that
  follows the break.
\<close>

theorem name_skips_leading_break:
  "nav env_twice 0 = Rendered listing_twice
   \<and> hd (links listing_twice) = first_link
   \<and> inner_text first_link = [0x0A] @ ascii ''Winter Live'' @ [0x0A] @ ascii ''Tokyo Dome ''
   \<and> first_line (inner_text first_link) = []
   \<and> get_event_urls ascii_digit env_twice 0 (ascii ''Travis Japan'') = (Inr [event_101], Suc 0)
   \<and> name event_101 = ascii ''Winter Live''
   \<and> name event_101 \<noteq> first_line (inner_text first_link)"
proof -
  have r: "nav env_twice 0 = Rendered listing_twice"
    by (simp add: env_twice_def)
  have a: "map_of ARTIST_IDS (ascii ''Travis Japan'') = Some 38"
    by (simp add: ARTIST_IDS_def)
  have h: "hd (links listing_twice) = first_link"
    by (simp add: listing_twice_def)
  have f: "first_line (inner_text first_link) = []"
    by (simp add: first_line_def first_link_def)
  have g: "get_event_urls ascii_digit env_twice 0 (ascii ''Travis Japan'')
      = (Inr [event_101], Suc 0)"
    using a r artist_id_nonzero [OF a]
      links_loop_eq [of ascii_digit 38 "links listing_twice" "{}" "[]"]
    by (simp add: get_event_urls_def twice_paths twice_first first_link_event)
  have nm: "name event_101 = ascii ''Winter Live''"
    by (simp add: event_101_def)
  have ne: "name event_101 \<noteq> first_line (inner_text first_link)"
    unfolding f nm by (simp add: ascii_def)
  from r h first_link_text f g nm ne show ?thesis by simp
qed

end
